theory Spec2Isabelle
  imports Complex_Main
begin

section \<open>The marker pattern\<close>

text \<open>
  \<^verbatim>\<open>parse_pdf\<close> looks for the marker with
  \<^verbatim>\<open>re.search(r'TEZA\s*(\d+)', text, re.IGNORECASE)\<close> and converts the captured
  group with \<^verbatim>\<open>int\<close>. Page texts are modelled as ASCII strings. On such texts
  \<^verbatim>\<open>\s\<close> is the ten characters space, TAB, LF, VT, FF, CR and the separators
  0x1C .. 0x1F, \<^verbatim>\<open>\d\<close> is \<^verbatim>\<open>0\<close> .. \<^verbatim>\<open>9\<close>, and each letter of the token
  matches in upper and in lower case. \<^verbatim>\<open>int\<close> is the unbounded decimal
  conversion (the length limit for such conversions of recent interpreters is not
  modelled).
\<close>

definition is_space :: "char \<Rightarrow> bool" where
  "is_space c = (c \<in> set [CHR '' '', CHR 0x09, CHR 0x0A, CHR 0x0B, CHR 0x0C, CHR 0x0D,
                            CHR 0x1C, CHR 0x1D, CHR 0x1E, CHR 0x1F])"

definition is_digit :: "char \<Rightarrow> bool" where
  "is_digit c = (c \<in> set ''0123456789'')"

definition eq_ignorecase :: "char \<Rightarrow> char \<Rightarrow> char \<Rightarrow> bool" where
  "eq_ignorecase up lo c = (c = up \<or> c = lo)"

definition is_token :: "string \<Rightarrow> bool" where
  "is_token w = (case w of
       [t, e, z, a] \<Rightarrow> eq_ignorecase CHR ''T'' CHR ''t'' t \<and> eq_ignorecase CHR ''E'' CHR ''e'' e
                      \<and> eq_ignorecase CHR ''Z'' CHR ''z'' z \<and> eq_ignorecase CHR ''A'' CHR ''a'' a
     | _ \<Rightarrow> False)"

text \<open>
  An attempt to match the pattern at the start of a string. \<^verbatim>\<open>\s*\<close> and
  \<^verbatim>\<open>\d+\<close> are greedy; since no character is both a space and a digit, giving
  back spaces never helps, so the attempt is decided by the longest run of spaces
  followed by the longest run of digits. The result is the captured group.
\<close>

definition match_here :: "string \<Rightarrow> string option" where
  "match_here s =
     (if is_token (take 4 s) then
        (let ds = takeWhile is_digit (dropWhile is_space (drop 4 s))
         in if ds = [] then None else Some ds)
      else None)"

text \<open>\<^verbatim>\<open>re.search\<close>: the match at the leftmost position where an attempt succeeds.\<close>

fun teza_match :: "string \<Rightarrow> string option" where
  "teza_match [] = None"
| "teza_match (c # cs) =
     (case match_here (c # cs) of Some ds \<Rightarrow> Some ds | None \<Rightarrow> teza_match cs)"

definition digit_val :: "char \<Rightarrow> int" where
  "digit_val c = int (of_char c) - 48"

definition int_of_digits :: "string \<Rightarrow> int" where
  "int_of_digits ds = foldl (\<lambda>a c. 10 * a + digit_val c) 0 ds"

definition marker_id :: "string \<Rightarrow> int option" where
  "marker_id text = map_option int_of_digits (teza_match text)"

section \<open>Classification of pages: \<^verbatim>\<open>parse_pdf\<close>\<close>

datatype error = KeyError | IndexError | RenderError

text \<open>
  \<^verbatim>\<open>self.exams\<close> is a dictionary from exam number to the list of its page numbers.
  It is kept as an association list with distinct keys, in insertion order.
\<close>

type_synonym exams = "(int \<times> nat list) list"

definition exams_append :: "exams \<Rightarrow> int \<Rightarrow> nat \<Rightarrow> error + exams" where
  "exams_append ex k p =
     (if k \<in> fst ` set ex
      then Inr (map (\<lambda>(k', ps). if k' = k then (k', ps @ [p]) else (k', ps)) ex)
      else Inl KeyError)"

text \<open>One iteration of the loop over the pages; the state is the dictionary and
  \<^verbatim>\<open>current_exam\<close>.\<close>

definition parse_page :: "exams \<times> int option \<Rightarrow> nat \<times> string \<Rightarrow> error + exams \<times> int option" where
  "parse_page st pg =
     (case st of (ex, cur) \<Rightarrow> case pg of (page_num, text) \<Rightarrow>
        (case teza_match text of
           Some ds \<Rightarrow>
             (let c = int_of_digits ds;
                  ex1 = (if c \<notin> fst ` set ex then ex @ [(c, [])] else ex)
              in case exams_append ex1 c page_num of
                   Inl e \<Rightarrow> Inl e
                 | Inr ex2 \<Rightarrow> Inr (ex2, Some c))
         | None \<Rightarrow>
             (case cur of
                Some c \<Rightarrow>
                  (case exams_append ex c page_num of
                     Inl e \<Rightarrow> Inl e
                   | Inr ex2 \<Rightarrow> Inr (ex2, cur))
              | None \<Rightarrow> Inr (ex, cur))))"

fun parse_loop :: "exams \<times> int option \<Rightarrow> (nat \<times> string) list \<Rightarrow> error + exams \<times> int option" where
  "parse_loop st [] = Inr st"
| "parse_loop st (pg # pgs) =
     (case parse_page st pg of Inl e \<Rightarrow> Inl e | Inr st' \<Rightarrow> parse_loop st' pgs)"

definition parse_pdf :: "string list \<Rightarrow> error + exams \<times> int option" where
  "parse_pdf pages = parse_loop ([], None) (enumerate 0 pages)"

text \<open>
  The classification in the words of the specification: a page belongs to the group
  of the nearest marker page at or before it, and to no group when there is none.
\<close>

definition owner :: "string list \<Rightarrow> nat \<Rightarrow> int option" where
  "owner pages i =
     (case filter (\<lambda>j. marker_id (pages ! j) \<noteq> None) (rev [0..<Suc i]) of
        [] \<Rightarrow> None
      | j # _ \<Rightarrow> marker_id (pages ! j))"

definition group_pages :: "string list \<Rightarrow> int \<Rightarrow> nat list option" where
  "group_pages pages g =
     (let ps = filter (\<lambda>i. owner pages i = Some g) [0..<length pages]
      in if ps = [] then None else Some ps)"

definition active_after :: "string list \<Rightarrow> int option" where
  "active_after pages = (if pages = [] then None else owner pages (length pages - 1))"

text \<open>The state of the loop after the pages of a prefix of the document.\<close>

definition classified :: "string list \<Rightarrow> exams \<times> int option \<Rightarrow> bool" where
  "classified pages st =
     (distinct (map fst (fst st)) \<and> (\<forall>g. map_of (fst st) g = group_pages pages g)
      \<and> snd st = active_after pages)"

section \<open>Rendering of a sheet: \<^verbatim>\<open>create_grid_page\<close>\<close>

text \<open>Python's \<^verbatim>\<open>str\<close> of a number, as used by the f-strings of labels and titles.\<close>

definition digit_char :: "nat \<Rightarrow> char" where
  "digit_char d = ''0123456789'' ! d"

function str_nat :: "nat \<Rightarrow> string" where
  "str_nat n = (if n < 10 then [digit_char n] else str_nat (n div 10) @ [digit_char (n mod 10)])"
  by pat_completeness auto
termination
  by (relation "measure id") auto

declare str_nat.simps [simp del]

definition str_int :: "int \<Rightarrow> string" where
  "str_int i = (if i < 0 then CHR ''-'' # str_nat (nat (- i)) else str_nat (nat i))"

fun join_comma :: "string list \<Rightarrow> string" where
  "join_comma [] = []"
| "join_comma [x] = x"
| "join_comma (x # y # ys) = x @ '', '' @ join_comma (y # ys)"

definition str_list :: "int list \<Rightarrow> string" where
  "str_list xs = ''['' @ join_comma (map str_int xs) @ '']''"

text \<open>
  A sheet is what was drawn on its canvas, in drawing order. A cell is named by its row
  and column (\<^verbatim>\<open>idx // grid_cols\<close> and \<^verbatim>\<open>idx % grid_cols\<close>, with three columns);
  the coordinates computed from them are floating point and are left out.
  \<^verbatim>\<open>Picture r c p\<close> is the picture of source page \<^verbatim>\<open>p\<close> drawn in that cell.
\<close>

datatype draw_op = Title string | Rect nat nat | Label nat nat string | Picture nat nat nat

datatype sheet = Grid "draw_op list" | Blank

text \<open>
  The collaborators that may raise: rasterizing a source page (opening it, its pixmap, the
  temporary file), drawing its picture, and appending a sheet to the output writer (reading
  the rendered packet back and \<^verbatim>\<open>add_page\<close>), which may depend on what the
  writer already holds.
\<close>

record env =
  raster_ok :: "nat \<Rightarrow> bool"
  draw_ok :: "nat \<Rightarrow> bool"
  add_ok :: "sheet list \<Rightarrow> sheet \<Rightarrow> bool"

definition grid_cols :: nat where
  "grid_cols = 3"

definition label_text :: "int \<Rightarrow> nat \<Rightarrow> nat \<Rightarrow> string" where
  "label_text exam_num page_idx first =
     ''E'' @ str_int exam_num @ ''-P'' @ str_int (int page_idx - int first + 1)"

text \<open>
  The loop over the cells. An exception of a collaborator is not caught here (the
  \<^verbatim>\<open>try\<close> around \<^verbatim>\<open>drawImage\<close> has a \<^verbatim>\<open>finally\<close> that removes the temporary
  file and no handler), so it ends the call.
\<close>

fun grid_cells :: "env \<Rightarrow> exams \<Rightarrow> (nat \<times> int option \<times> nat option) list
                    \<Rightarrow> draw_op list \<times> bool \<Rightarrow> error + draw_op list \<times> bool" where
  "grid_cells E ex [] acc = Inr acc"
| "grid_cells E ex ((idx, None, page_idx) # cells) acc = grid_cells E ex cells acc"
| "grid_cells E ex ((idx, Some exam_num, None) # cells) acc = grid_cells E ex cells acc"
| "grid_cells E ex ((idx, Some exam_num, Some page_idx) # cells) acc =
     (let row = idx div grid_cols; col = idx mod grid_cols
      in case map_of ex exam_num of
           None \<Rightarrow> Inl KeyError
         | Some [] \<Rightarrow> Inl IndexError
         | Some (first # _) \<Rightarrow>
             if raster_ok E page_idx \<and> draw_ok E page_idx
             then grid_cells E ex cells
                    (fst acc @ [Rect row col, Label row col (label_text exam_num page_idx first),
                                Picture row col page_idx], True)
             else Inl RenderError)"

definition create_grid_page :: "env \<Rightarrow> exams \<Rightarrow> int option list \<Rightarrow> nat option list \<Rightarrow> string
                                  \<Rightarrow> error + sheet \<times> bool" where
  "create_grid_page E ex exam_numbers page_indices title =
     (case grid_cells E ex (enumerate 0 (zip exam_numbers page_indices))
             (if title \<noteq> [] then [Title title] else [], False) of
        Inl e \<Rightarrow> Inl e
      | Inr (ops, has_content) \<Rightarrow> Inr (Grid ops, has_content))"

section \<open>Batches and sheets: \<^verbatim>\<open>reformat_pdf\<close>\<close>

text \<open>\<^verbatim>\<open>range(i, n, 6)\<close>, and the padding loop \<^verbatim>\<open>while len(batch) < 6\<close>.\<close>

function range_step :: "nat \<Rightarrow> nat \<Rightarrow> nat list" where
  "range_step i n = (if i < n then i # range_step (i + 6) n else [])"
  by pat_completeness auto
termination
  by (relation "measure (\<lambda>(i, n). n - i)") auto

declare range_step.simps [simp del]

function pad_batch :: "int option list \<Rightarrow> int option list" where
  "pad_batch batch = (if length batch < 6 then pad_batch (batch @ [None]) else batch)"
  by pat_completeness auto
termination
  by (relation "measure (\<lambda>batch. 6 - length batch)") auto

declare pad_batch.simps [simp del]

definition batch_at :: "int list \<Rightarrow> nat \<Rightarrow> int option list" where
  "batch_at exam_numbers i = pad_batch (map Some (take 6 (drop i exam_numbers)))"

text \<open>The batches that a loop over \<^verbatim>\<open>range(0, len(exam_numbers), 6)\<close> forms, in order.\<close>

definition batches :: "int list \<Rightarrow> int option list list" where
  "batches exam_numbers = map (batch_at exam_numbers) (range_step 0 (length exam_numbers))"

text \<open>The truth value Python gives to a slot: \<^verbatim>\<open>None\<close> and \<^verbatim>\<open>0\<close> are false.\<close>

fun truthy :: "int option \<Rightarrow> bool" where
  "truthy None = False"
| "truthy (Some e) = (e \<noteq> 0)"

definition first_page :: "exams \<Rightarrow> int option \<Rightarrow> error + nat option" where
  "first_page ex exam_num =
     (if truthy exam_num \<and> the exam_num \<in> fst ` set ex then
        (case map_of ex (the exam_num) of
           None \<Rightarrow> Inl KeyError
         | Some [] \<Rightarrow> Inl IndexError
         | Some (p # _) \<Rightarrow> Inr (Some p))
      else Inr None)"

definition second_page :: "exams \<Rightarrow> int option \<Rightarrow> error + nat option" where
  "second_page ex exam_num =
     (if truthy exam_num \<and> the exam_num \<in> fst ` set ex then
        (case map_of ex (the exam_num) of
           None \<Rightarrow> Inl KeyError
         | Some ps \<Rightarrow> if length ps > 1 then Inr (Some (ps ! 1)) else Inr None)
      else Inr None)"

definition third_page :: "exams \<Rightarrow> int option \<Rightarrow> error + nat option" where
  "third_page ex exam_num =
     (if truthy exam_num then
        (case map_of ex (the exam_num) of
           None \<Rightarrow> Inl KeyError
         | Some ps \<Rightarrow> if length ps \<ge> 3 then Inr (Some (ps ! 2)) else Inr None)
      else Inr None)"

fun map_err :: "('a \<Rightarrow> error + 'b) \<Rightarrow> 'a list \<Rightarrow> error + 'b list" where
  "map_err f [] = Inr []"
| "map_err f (x # xs) =
     (case f x of
        Inl e \<Rightarrow> Inl e
      | Inr y \<Rightarrow> (case map_err f xs of Inl e \<Rightarrow> Inl e | Inr ys \<Rightarrow> Inr (y # ys)))"

fun back_order :: "'a list \<Rightarrow> error + 'a list" where
  "back_order (b0 # b1 # b2 # b3 # b4 # b5 # rest) = Inr [b2, b1, b0, b5, b4, b3]"
| "back_order batch = Inl IndexError"

text \<open>Appending a sheet; \<^verbatim>\<open>None\<close> is the exception that the caller catches.\<close>

definition add_page :: "env \<Rightarrow> sheet list \<Rightarrow> sheet \<Rightarrow> sheet list option" where
  "add_page E writer s = (if add_ok E writer s then Some (writer @ [s]) else None)"

text \<open>
  The \<^verbatim>\<open>try\<close> block of a batch: two appends in a row, the second skipped when the first
  raises; the handler prints and goes on with what the writer holds.
\<close>

definition add_pair :: "env \<Rightarrow> sheet list \<Rightarrow> sheet \<Rightarrow> sheet \<Rightarrow> sheet list" where
  "add_pair E writer s1 s2 =
     (case add_page E writer s1 of
        None \<Rightarrow> writer
      | Some w1 \<Rightarrow> (case add_page E w1 s2 of None \<Rightarrow> w1 | Some w2 \<Rightarrow> w2))"

definition first_title :: "nat \<Rightarrow> string" where
  "first_title batch_count = ''Batch '' @ str_nat batch_count @ '' - First Pages''"

definition second_title :: "nat \<Rightarrow> string" where
  "second_title batch_count = ''Batch '' @ str_nat batch_count @ '' - Second Pages''"

definition third_title :: "int option list \<Rightarrow> string" where
  "third_title batch = ''Third Pages - Exams '' @ str_list (List.map_filter id batch)"

text \<open>The body of the loop over the primary batches; the state is the writer and
  \<^verbatim>\<open>batch_count\<close>.\<close>

definition primary_batch :: "env \<Rightarrow> exams \<Rightarrow> int list \<Rightarrow> sheet list \<times> nat \<Rightarrow> nat
                               \<Rightarrow> error + sheet list \<times> nat" where
  "primary_batch E ex exam_numbers st i =
     (let batch = batch_at exam_numbers i;
          batch_count = snd st + 1
      in case map_err (first_page ex) batch of Inl e \<Rightarrow> Inl e | Inr page_indices \<Rightarrow>
         case create_grid_page E ex batch page_indices (first_title batch_count) of
           Inl e \<Rightarrow> Inl e | Inr (front, _) \<Rightarrow>
         case back_order batch of Inl e \<Rightarrow> Inl e | Inr back \<Rightarrow>
         case map_err (second_page ex) back of Inl e \<Rightarrow> Inl e | Inr page_indices2 \<Rightarrow>
         case create_grid_page E ex back page_indices2 (second_title batch_count) of
           Inl e \<Rightarrow> Inl e | Inr (back_sheet, has_second_pages) \<Rightarrow>
         Inr (add_pair E (fst st) front (if has_second_pages then back_sheet else Blank),
              batch_count))"

fun primary_loop :: "env \<Rightarrow> exams \<Rightarrow> int list \<Rightarrow> sheet list \<times> nat \<Rightarrow> nat list
                       \<Rightarrow> error + sheet list \<times> nat" where
  "primary_loop E ex exam_numbers st [] = Inr st"
| "primary_loop E ex exam_numbers st (i # is) =
     (case primary_batch E ex exam_numbers st i of
        Inl e \<Rightarrow> Inl e
      | Inr st' \<Rightarrow> primary_loop E ex exam_numbers st' is)"

fun third_page_exams :: "exams \<Rightarrow> int list \<Rightarrow> error + int list" where
  "third_page_exams ex [] = Inr []"
| "third_page_exams ex (exam # rest) =
     (case map_of ex exam of
        None \<Rightarrow> Inl KeyError
      | Some ps \<Rightarrow>
          (case third_page_exams ex rest of
             Inl e \<Rightarrow> Inl e
           | Inr r \<Rightarrow> Inr (if length ps \<ge> 3 then exam # r else r)))"

definition third_batch :: "env \<Rightarrow> exams \<Rightarrow> int list \<Rightarrow> sheet list \<Rightarrow> nat \<Rightarrow> error + sheet list" where
  "third_batch E ex third_exams writer i =
     (let batch = batch_at third_exams i
      in case map_err (third_page ex) batch of Inl e \<Rightarrow> Inl e | Inr page_indices \<Rightarrow>
         case create_grid_page E ex batch page_indices (third_title batch) of
           Inl e \<Rightarrow> Inl e | Inr (third, _) \<Rightarrow>
         Inr (add_pair E writer third Blank))"

fun third_loop :: "env \<Rightarrow> exams \<Rightarrow> int list \<Rightarrow> sheet list \<Rightarrow> nat list \<Rightarrow> error + sheet list" where
  "third_loop E ex third_exams writer [] = Inr writer"
| "third_loop E ex third_exams writer (i # is) =
     (case third_batch E ex third_exams writer i of
        Inl e \<Rightarrow> Inl e
      | Inr writer' \<Rightarrow> third_loop E ex third_exams writer' is)"

text \<open>
  The whole run. \<^verbatim>\<open>Inr\<close> is the document written to the output file; \<^verbatim>\<open>Inl\<close> is an
  exception that leaves \<^verbatim>\<open>reformat_pdf\<close>, before the file is opened for writing. The
  lists of one-page, two-page and longer exams are only printed and are left out.
\<close>

definition reformat_pdf :: "env \<Rightarrow> string list \<Rightarrow> error + sheet list" where
  "reformat_pdf E pages =
     (case parse_pdf pages of Inl e \<Rightarrow> Inl e | Inr (ex, _) \<Rightarrow>
        (let exam_numbers = sort (map fst ex)
         in case primary_loop E ex exam_numbers ([], 0) (range_step 0 (length exam_numbers)) of
              Inl e \<Rightarrow> Inl e
            | Inr (writer, _) \<Rightarrow>
                (case third_page_exams ex exam_numbers of
                   Inl e \<Rightarrow> Inl e
                 | Inr third_exams \<Rightarrow>
                     if third_exams \<noteq> []
                     then third_loop E ex third_exams writer (range_step 0 (length third_exams))
                     else Inr writer)))"

text \<open>Environments: no collaborator fails; rasterizing fails on one page; the append
  fails when the writer holds a given number of sheets.\<close>

definition no_failure :: env where
  "no_failure = \<lparr>raster_ok = (\<lambda>p. True), draw_ok = (\<lambda>p. True), add_ok = (\<lambda>w s. True)\<rparr>"

definition raster_fails_on :: "nat \<Rightarrow> env" where
  "raster_fails_on q = \<lparr>raster_ok = (\<lambda>p. p \<noteq> q), draw_ok = (\<lambda>p. True), add_ok = (\<lambda>w s. True)\<rparr>"


text \<open>The source pages whose pictures a sheet shows.\<close>

definition images :: "sheet \<Rightarrow> nat list" where
  "images s = (case s of Blank \<Rightarrow> [] | Grid ops \<Rightarrow> concat (map (\<lambda>d. case d of Picture r c p \<Rightarrow> [p] | _ \<Rightarrow> []) ops))"

text \<open>
  Closed forms of the loop over the cells: the pages of the cells that are drawn, and what
  is drawn for them. A list of cells is well formed when every cell to draw names a group
  of the dictionary that has a first page.
\<close>

fun cell_pages :: "(nat \<times> int option \<times> nat option) list \<Rightarrow> nat list" where
  "cell_pages [] = []"
| "cell_pages ((idx, None, page_idx) # cells) = cell_pages cells"
| "cell_pages ((idx, Some exam_num, None) # cells) = cell_pages cells"
| "cell_pages ((idx, Some exam_num, Some page_idx) # cells) = page_idx # cell_pages cells"

fun cell_ops :: "exams \<Rightarrow> (nat \<times> int option \<times> nat option) list \<Rightarrow> draw_op list" where
  "cell_ops ex [] = []"
| "cell_ops ex ((idx, None, page_idx) # cells) = cell_ops ex cells"
| "cell_ops ex ((idx, Some exam_num, None) # cells) = cell_ops ex cells"
| "cell_ops ex ((idx, Some exam_num, Some page_idx) # cells) =
     [Rect (idx div grid_cols) (idx mod grid_cols),
      Label (idx div grid_cols) (idx mod grid_cols)
        (label_text exam_num page_idx (hd (the (map_of ex exam_num)))),
      Picture (idx div grid_cols) (idx mod grid_cols) page_idx] @ cell_ops ex cells"

definition cells_ok :: "exams \<Rightarrow> (nat \<times> int option \<times> nat option) list \<Rightarrow> bool" where
  "cells_ok ex cells =
     (\<forall>(idx, e, p) \<in> set cells. \<forall>e' p'. e = Some e' \<and> p = Some p'
          \<longrightarrow> (\<exists>f fs. map_of ex e' = Some (f # fs)))"

text \<open>One of the first three pages of a group whose id is not zero; a writer that shows
  only such pages.\<close>

definition shown :: "exams \<Rightarrow> nat \<Rightarrow> bool" where
  "shown ex p = (\<exists>e ps. e \<noteq> 0 \<and> map_of ex e = Some ps \<and> p \<in> set (take 3 ps))"

definition all_shown :: "exams \<Rightarrow> sheet list \<Rightarrow> bool" where
  "all_shown ex writer = (\<forall>s\<in>set writer. \<forall>p\<in>set (images s). shown ex p)"

definition nonempty_groups :: "exams \<Rightarrow> bool" where
  "nonempty_groups ex = (\<forall>e ps. map_of ex e = Some ps \<longrightarrow> ps \<noteq> [])"

definition rendering_ok :: "env \<Rightarrow> bool" where
  "rendering_ok E = (\<forall>p. raster_ok E p \<and> draw_ok E p)"

section \<open>Properties of the marker pattern\<close>







section \<open>Properties of the classification\<close>

lemma map_of_exams_append:
  "map_of (map (\<lambda>(k', ps). if k' = k then (k', ps @ [p]) else (k', ps)) ex) g =
     (if g = k then map_option (\<lambda>ps. ps @ [p]) (map_of ex k) else map_of ex g)"
  by (induction ex) auto

lemma keys_exams_append:
  "map fst (map (\<lambda>(k', ps). if k' = k then (k', ps @ [p]) else (k', ps)) ex) = map fst ex"
  by (induction ex) auto

lemma exams_append_Inr:
  assumes "map_of ex k = Some ps"
  shows "\<exists>ex'. exams_append ex k p = Inr ex' \<and> map fst ex' = map fst ex
           \<and> map_of ex' = (map_of ex)(k \<mapsto> ps @ [p])"
proof -
  from assms have "k \<in> fst ` set ex" by (metis map_of_eq_None_iff option.distinct(1))
  then show ?thesis using assms
    by (auto simp: exams_append_def keys_exams_append map_of_exams_append fun_eq_iff)
qed

lemma parse_loop_append:
  "parse_loop st (xs @ ys) =
     (case parse_loop st xs of Inl e \<Rightarrow> Inl e | Inr st' \<Rightarrow> parse_loop st' ys)"
  by (induction xs arbitrary: st) (auto split: sum.splits)

lemma parse_pdf_snoc:
  "parse_pdf (pages @ [t]) =
     (case parse_pdf pages of Inl e \<Rightarrow> Inl e | Inr st \<Rightarrow> parse_page st (length pages, t))"
  by (simp add: parse_pdf_def enumerate_append_eq parse_loop_append split: sum.splits)

lemma owner_0: "owner pages 0 = marker_id (pages ! 0)"
  by (cases "marker_id (pages ! 0)") (simp_all add: owner_def)

lemma owner_Suc:
  "owner pages (Suc i) =
     (case marker_id (pages ! Suc i) of Some g \<Rightarrow> Some g | None \<Rightarrow> owner pages i)"
  by (cases "marker_id (pages ! Suc i)") (simp_all add: owner_def)

lemma owner_append: "i < length pages \<Longrightarrow> owner (pages @ ts) i = owner pages i"
  by (induction i) (auto simp: owner_0 owner_Suc nth_append split: option.splits)

lemma owner_last_snoc:
  "owner (pages @ [t]) (length pages) =
     (case marker_id t of Some g \<Rightarrow> Some g | None \<Rightarrow> active_after pages)"
proof (cases "length pages")
  case 0
  then show ?thesis by (simp add: active_after_def owner_0 split: option.splits)
next
  case (Suc n)
  then have ne: "pages \<noteq> []" by auto
  have "owner (pages @ [t]) n = owner pages n"
    using Suc by (intro owner_append) simp
  moreover have "(pages @ [t]) ! Suc n = t"
    using Suc nth_append_length [of pages t] by simp
  ultimately show ?thesis
    using Suc ne owner_Suc [of "pages @ [t]" n]
    by (simp add: active_after_def split: option.splits)
qed

lemma active_after_snoc:
  "active_after (pages @ [t]) =
     (case marker_id t of Some g \<Rightarrow> Some g | None \<Rightarrow> active_after pages)"
  using owner_last_snoc [of pages t] by (simp add: active_after_def)

lemma group_pages_snoc:
  "group_pages (pages @ [t]) g =
     (if active_after (pages @ [t]) = Some g
      then Some ((case group_pages pages g of None \<Rightarrow> [] | Some ps \<Rightarrow> ps) @ [length pages])
      else group_pages pages g)"
proof -
  have "filter (\<lambda>i. owner (pages @ [t]) i = Some g) [0..<length pages] =
        filter (\<lambda>i. owner pages i = Some g) [0..<length pages]"
    by (rule filter_cong) (simp_all add: owner_append)
  moreover have "owner (pages @ [t]) (length pages) = active_after (pages @ [t])"
    by (simp add: active_after_def)
  ultimately show ?thesis
    by (simp add: group_pages_def Let_def)
qed

lemma active_after_group_pages:
  assumes "active_after pages = Some c"
  shows "group_pages pages c \<noteq> None"
proof -
  from assms have ne: "pages \<noteq> []" and ow: "owner pages (length pages - 1) = Some c"
    by (auto simp: active_after_def split: if_splits)
  then have "length pages - 1 \<in> set (filter (\<lambda>i. owner pages i = Some c) [0..<length pages])"
    by simp
  then have "filter (\<lambda>i. owner pages i = Some c) [0..<length pages] \<noteq> []"
    by (metis empty_iff empty_set)
  then show ?thesis by (simp add: group_pages_def Let_def)
qed

lemma parse_page_classified:
  assumes "classified pages st"
  shows "\<exists>st'. parse_page st (length pages, t) = Inr st' \<and> classified (pages @ [t]) st'"
proof -
  obtain ex cur where st: "st = (ex, cur)" by (cases st)
  from assms st have dist: "distinct (map fst ex)"
    and gp: "\<And>g. map_of ex g = group_pages pages g"
    and cur: "cur = active_after pages"
    by (simp_all add: classified_def)
  show ?thesis
  proof (cases "teza_match t")
    case None
    then have mid: "marker_id t = None" by (simp add: marker_id_def)
    show ?thesis
    proof (cases cur)
      case None
      with \<open>teza_match t = None\<close> st mid cur dist gp show ?thesis
        by (simp add: parse_page_def classified_def group_pages_snoc active_after_snoc)
    next
      case (Some c)
      with cur have "group_pages pages c \<noteq> None" by (simp add: active_after_group_pages)
      then obtain ps where ps: "map_of ex c = Some ps" using gp by auto
      from exams_append_Inr [OF ps, of "length pages"] obtain ex' where
        ex': "exams_append ex c (length pages) = Inr ex'" "map fst ex' = map fst ex"
             "map_of ex' = (map_of ex)(c \<mapsto> ps @ [length pages])" by blast
      have "classified (pages @ [t]) (ex', cur)"
        using ex' dist gp cur Some mid ps
        by (auto simp: classified_def group_pages_snoc active_after_snoc)
      with \<open>teza_match t = None\<close> st Some ex' show ?thesis
        by (simp add: parse_page_def)
    qed
  next
    case (Some ds)
    define c where "c = int_of_digits ds"
    define ex1 where "ex1 = (if c \<notin> fst ` set ex then ex @ [(c, [])] else ex)"
    from Some have mid: "marker_id t = Some c" by (simp add: marker_id_def c_def)
    have d1: "distinct (map fst ex1)" using dist by (auto simp: ex1_def)
    have m1: "map_of ex1 = (map_of ex)(c \<mapsto> (case map_of ex c of None \<Rightarrow> [] | Some ps \<Rightarrow> ps))"
    proof (cases "c \<in> fst ` set ex")
      case True
      then obtain ps where "map_of ex c = Some ps"
        by (metis map_of_eq_None_iff not_Some_eq)
      with True show ?thesis by (auto simp: ex1_def fun_eq_iff)
    next
      case False
      then have "map_of ex c = None" by (simp add: map_of_eq_None_iff)
      with False show ?thesis
        by (auto simp: ex1_def fun_eq_iff map_add_def split: option.splits)
    qed
    then have "map_of ex1 c = Some (case map_of ex c of None \<Rightarrow> [] | Some ps \<Rightarrow> ps)" by simp
    from exams_append_Inr [OF this, of "length pages"] obtain ex' where
      ex': "exams_append ex1 c (length pages) = Inr ex'" "map fst ex' = map fst ex1"
           "map_of ex' = (map_of ex1)(c \<mapsto> (case map_of ex c of None \<Rightarrow> [] | Some ps \<Rightarrow> ps) @ [length pages])"
      by blast
    have "classified (pages @ [t]) (ex', Some c)"
      using ex' d1 m1 gp mid
      by (auto simp: classified_def group_pages_snoc active_after_snoc)
    moreover have "parse_page st (length pages, t) = Inr (ex', Some c)"
      using Some st ex'(1) unfolding parse_page_def ex1_def c_def
      by (simp add: Let_def)
    ultimately show ?thesis by blast
  qed
qed

lemma parse_pdf_classified: "\<exists>st. parse_pdf pages = Inr st \<and> classified pages st"
proof (induction pages rule: rev_induct)
  case Nil
  show ?case
    by (simp add: parse_pdf_def classified_def group_pages_def active_after_def)
next
  case (snoc t pages)
  then obtain st where "parse_pdf pages = Inr st" "classified pages st" by blast
  with parse_page_classified [of pages st t] show ?case
    by (simp add: parse_pdf_snoc)
qed

text \<open>
  Claim C1. \<^verbatim>\<open>parse_pdf\<close> is a fold over the pages in source order and never raises.
  After any document every group holds exactly the pages, in source order, whose nearest
  marker at or before them carries the group's id; pages before the first marker are in
  no group; the keys are distinct. One more page \<^verbatim>\<open>t\<close> changes the result as follows:
  when \<^verbatim>\<open>t\<close> matches with id \<^verbatim>\<open>g\<close>, the index of the page is appended to the list
  that group \<^verbatim>\<open>g\<close> already has (the empty list when the group is new) and \<^verbatim>\<open>g\<close>
  becomes the active id; when \<^verbatim>\<open>t\<close> does not match, its index is appended to the
  active group, every other group unchanged, and with no active group nothing changes.
\<close>

theorem parse_pdf_fold:
  "\<exists>ex cur ex' cur'.
      parse_pdf pages = Inr (ex, cur) \<and> distinct (map fst ex)
    \<and> (\<forall>g. map_of ex g = group_pages pages g) \<and> cur = active_after pages
    \<and> parse_pdf (pages @ [t]) = Inr (ex', cur')
    \<and> (case marker_id t of
          Some g \<Rightarrow> cur' = Some g
            \<and> map_of ex' = (map_of ex)(g \<mapsto> (case map_of ex g of None \<Rightarrow> [] | Some ps \<Rightarrow> ps) @ [length pages])
        | None \<Rightarrow> cur' = cur
            \<and> (case cur of
                  Some c \<Rightarrow> \<exists>ps. map_of ex c = Some ps \<and> map_of ex' = (map_of ex)(c \<mapsto> ps @ [length pages])
                | None \<Rightarrow> ex' = ex))"
proof -
  obtain ex cur where p: "parse_pdf pages = Inr (ex, cur)" and c: "classified pages (ex, cur)"
    using parse_pdf_classified [of pages] by auto
  obtain ex' cur' where p': "parse_pdf (pages @ [t]) = Inr (ex', cur')"
    and c': "classified (pages @ [t]) (ex', cur')"
    using parse_pdf_classified [of "pages @ [t]"] by auto
  from c have gp: "\<And>g. map_of ex g = group_pages pages g" and cur: "cur = active_after pages"
    and d: "distinct (map fst ex)"
    by (simp_all add: classified_def)
  from c' have gp': "\<And>g. map_of ex' g = group_pages (pages @ [t]) g"
    and cur': "cur' = active_after (pages @ [t])"
    by (simp_all add: classified_def)
  have step: "case marker_id t of
          Some g \<Rightarrow> cur' = Some g
            \<and> map_of ex' = (map_of ex)(g \<mapsto> (case map_of ex g of None \<Rightarrow> [] | Some ps \<Rightarrow> ps) @ [length pages])
        | None \<Rightarrow> cur' = cur
            \<and> (case cur of
                  Some c \<Rightarrow> \<exists>ps. map_of ex c = Some ps \<and> map_of ex' = (map_of ex)(c \<mapsto> ps @ [length pages])
                | None \<Rightarrow> ex' = ex)"
  proof (cases "marker_id t")
    case (Some g)
    then have "cur' = Some g" by (simp add: cur' active_after_snoc)
    moreover have "map_of ex' = (map_of ex)(g \<mapsto> (case map_of ex g of None \<Rightarrow> [] | Some ps \<Rightarrow> ps) @ [length pages])"
      using Some by (auto simp: fun_eq_iff gp' gp group_pages_snoc active_after_snoc)
    ultimately show ?thesis using Some by simp
  next
    case None
    then have cc: "cur' = cur" by (simp add: cur' cur active_after_snoc)
    show ?thesis
    proof (cases cur)
      case nc: None
      from None have "teza_match t = None" by (simp add: marker_id_def)
      with p p' nc have "ex' = ex" by (simp add: parse_pdf_snoc parse_page_def)
      with None cc nc show ?thesis by simp
    next
      case (Some c)
      with cur have "group_pages pages c \<noteq> None" by (simp add: active_after_group_pages)
      then obtain ps where ps: "map_of ex c = Some ps" using gp by auto
      have "map_of ex' = (map_of ex)(c \<mapsto> ps @ [length pages])"
        using None Some cur ps
        by (auto simp: fun_eq_iff gp' gp group_pages_snoc active_after_snoc)
      with None cc Some ps show ?thesis by simp
    qed
  qed
  from p d gp cur p' step show ?thesis by blast
qed

theorem parse_pdf_fold_witness:
  "\<exists>ex cur ex' cur'.
      parse_pdf [''cover'', ''TEZA 5'', ''TEZA 6'', '''', ''TEZA 5''] = Inr (ex, cur)
    \<and> map_of ex 5 = Some [1, 4] \<and> map_of ex 6 = Some [2, 3] \<and> map_of ex 7 = None \<and> cur = Some 5
    \<and> parse_pdf ([''cover'', ''TEZA 5'', ''TEZA 6'', '''', ''TEZA 5''] @ [''more'']) = Inr (ex', cur')
    \<and> cur' = Some 5 \<and> map_of ex' 5 = Some [1, 4, 5]"
proof -
  have g5: "group_pages [''cover'', ''TEZA 5'', ''TEZA 6'', '''', ''TEZA 5''] 5 = Some [1, 4]"
    by code_simp
  have g6: "group_pages [''cover'', ''TEZA 5'', ''TEZA 6'', '''', ''TEZA 5''] 6 = Some [2, 3]"
    by code_simp
  have g7: "group_pages [''cover'', ''TEZA 5'', ''TEZA 6'', '''', ''TEZA 5''] 7 = None"
    by code_simp
  have a: "active_after [''cover'', ''TEZA 5'', ''TEZA 6'', '''', ''TEZA 5''] = Some 5"
    by code_simp
  have m: "marker_id ''more'' = None" by code_simp
  from parse_pdf_fold [of "[''cover'', ''TEZA 5'', ''TEZA 6'', '''', ''TEZA 5'']" "''more''"]
  obtain ex cur ex' cur' where
    "parse_pdf [''cover'', ''TEZA 5'', ''TEZA 6'', '''', ''TEZA 5''] = Inr (ex, cur)"
    "\<forall>g. map_of ex g = group_pages [''cover'', ''TEZA 5'', ''TEZA 6'', '''', ''TEZA 5''] g"
    "cur = active_after [''cover'', ''TEZA 5'', ''TEZA 6'', '''', ''TEZA 5'']"
    "parse_pdf ([''cover'', ''TEZA 5'', ''TEZA 6'', '''', ''TEZA 5''] @ [''more'']) = Inr (ex', cur')"
    "cur' = cur \<and> (case cur of
                  Some c \<Rightarrow> \<exists>ps. map_of ex c = Some ps \<and> map_of ex' = (map_of ex)(c \<mapsto> ps @ [length [''cover'', ''TEZA 5'', ''TEZA 6'', '''', ''TEZA 5'']])
                | None \<Rightarrow> ex' = ex)"
    unfolding m option.case by blast
  then show ?thesis using g5 g6 g7 a by (intro exI [of _ ex] exI [of _ cur] exI [of _ ex'] exI [of _ cur']) auto
qed



section \<open>Properties of the batches\<close>

lemma div6_step:
  assumes "i < n"
  shows "Suc ((n - (i + 6) + 5) div 6) = (n - i + 5) div (6::nat)"
proof (cases "i + 6 \<le> n")
  case True
  then have "n - i + 5 = (n - (i + 6) + 5) + 6" by simp
  then show ?thesis by (simp only: div_add_self2)
next
  case False
  with assms obtain d where d: "n - i = Suc d" "d < 5" "n - (i + 6) = 0"
    by (cases "n - i") auto
  then have "(n - i + 5) div 6 = (d + 6) div 6" by simp
  also have "\<dots> = 1" using d(2) by (simp only: div_add_self2)
  finally show ?thesis using d(3) by simp
qed

lemma length_range_step: "length (range_step i n) = (n - i + 5) div 6"
proof (induction i n rule: range_step.induct)
  case (1 i n)
  show ?case
  proof (cases "i < n")
    case True
    then have "length (range_step i n) = Suc ((n - (i + 6) + 5) div 6)"
      using 1 by (subst range_step.simps) simp
    also have "\<dots> = (n - i + 5) div 6" using True by (rule div6_step)
    finally show ?thesis .
  next
    case False
    then show ?thesis by (subst range_step.simps) simp
  qed
qed

lemma ceiling_div_6: "\<lceil>real n / 6\<rceil> = int ((n + 5) div 6)"
proof -
  have "\<lceil>real n / 6\<rceil> = \<lceil>of_int (int n) / (of_int 6 :: real)\<rceil>" by simp
  also have "\<dots> = - (- int n div 6)" by (rule ceiling_divide_eq_div)
  also have "\<dots> = int ((n + 5) div 6)" by (simp add: zdiv_int)
  finally show ?thesis .
qed

lemma concat_windows:
  "n = length ids \<Longrightarrow> concat (map (\<lambda>i. take 6 (drop i ids)) (range_step i n)) = drop i ids"
proof (induction i n rule: range_step.induct)
  case (1 i n)
  show ?case
  proof (cases "i < n")
    case True
    then have "concat (map (\<lambda>i. take 6 (drop i ids)) (range_step i n)) =
        take 6 (drop i ids) @ drop (i + 6) ids"
      using 1 by (subst range_step.simps) simp
    also have "drop (i + 6) ids = drop 6 (drop i ids)" by (simp add: add.commute)
    also have "take 6 (drop i ids) @ drop 6 (drop i ids) = drop i ids"
      by (rule append_take_drop_id)
    finally show ?thesis .
  next
    case False
    with 1 show ?thesis by (subst range_step.simps) simp
  qed
qed

lemma pad_batch_replicate:
  "pad_batch batch = batch @ replicate (6 - length batch) None"
proof (induction batch rule: pad_batch.induct)
  case (1 batch)
  show ?case
  proof (cases "length batch < 6")
    case True
    then have "pad_batch batch = (batch @ [None]) @ replicate (6 - length (batch @ [None])) None"
      using 1 by (subst pad_batch.simps) simp
    also have "\<dots> = batch @ replicate (Suc (6 - length (batch @ [None]))) None"
      by simp
    also have "Suc (6 - length (batch @ [None])) = 6 - length batch"
      using True by simp
    finally show ?thesis .
  next
    case False
    then show ?thesis by (subst pad_batch.simps) simp
  qed
qed

lemma batch_at_window:
  "batch_at ids i = map Some (take 6 (drop i ids)) @ replicate (6 - length (take 6 (drop i ids))) None"
  by (simp add: batch_at_def pad_batch_replicate)

lemma length_batch_at: "length (batch_at ids i) = 6"
  by (simp add: batch_at_window)

lemma map_filter_id_Some: "List.map_filter id (map Some xs @ replicate k None) = xs"
  by (induction xs) (simp_all add: List.map_filter_def)

lemma slots_batch_at: "List.map_filter id (batch_at ids i) = take 6 (drop i ids)"
  by (simp add: batch_at_window map_filter_id_Some)


text \<open>
  Claim C2. For every list of group ids (so for every sorted one) the loop forms
  \<open>\<lceil>|ids| / 6\<rceil>\<close> batches; every batch has exactly six slots, the ids of its window
  followed by empty slots; and the non-empty slots of all batches, concatenated in order,
  are the list of ids again.
\<close>

theorem batches_plan:
  "int (length (batches ids)) = \<lceil>real (length ids) / 6\<rceil>
   \<and> (\<forall>b \<in> set (batches ids). length b = 6)
   \<and> (\<forall>i \<in> set (range_step 0 (length ids)).
         batch_at ids i = map Some (take 6 (drop i ids))
                            @ replicate (6 - length (take 6 (drop i ids))) None)
   \<and> concat (map (List.map_filter id) (batches ids)) = ids"
proof (intro conjI ballI)
  show "int (length (batches ids)) = \<lceil>real (length ids) / 6\<rceil>"
    by (simp add: batches_def length_range_step ceiling_div_6)
next
  fix b assume "b \<in> set (batches ids)"
  then show "length b = 6" by (auto simp: batches_def length_batch_at)
next
  fix i
  show "batch_at ids i = map Some (take 6 (drop i ids))
                            @ replicate (6 - length (take 6 (drop i ids))) None"
    by (rule batch_at_window)
next
  have "concat (map (List.map_filter id) (batches ids)) =
        concat (map (\<lambda>i. take 6 (drop i ids)) (range_step 0 (length ids)))"
    by (simp add: batches_def comp_def slots_batch_at)
  also have "\<dots> = drop 0 ids" by (rule concat_windows) simp
  finally show "concat (map (List.map_filter id) (batches ids)) = ids" by simp
qed

theorem batches_plan_witness:
  "batches [1, 2, 3, 4, 5, 6, 7] =
     [[Some 1, Some 2, Some 3, Some 4, Some 5, Some 6], [Some 7, None, None, None, None, None]]
   \<and> int (length (batches [1, 2, 3, 4, 5, 6, 7])) = \<lceil>real (length [1, 2, 3, 4, 5, 6, 7 :: int]) / 6\<rceil>
   \<and> length [Some 7, None, None, None, None, None :: int option] = 6
   \<and> concat (map (List.map_filter id) (batches [1, 2, 3, 4, 5, 6, 7])) = [1, 2, 3, 4, 5, 6, 7]"
proof -
  have b: "batches [1, 2, 3, 4, 5, 6, 7] =
     [[Some 1, Some 2, Some 3, Some 4, Some 5, Some 6], [Some 7, None, None, None, None, None]]"
    by code_simp
  then have "[Some 7, None, None, None, None, None] \<in> set (batches [1, 2, 3, 4, 5, 6, 7])"
    by simp
  with batches_plan [of "[1, 2, 3, 4, 5, 6, 7]"] b show ?thesis by blast
qed


text \<open>
  Claim C3. On a batch of six slots \<^verbatim>\<open>back_order\<close> is the permutation that sends the slot
  order 0 1 2 3 4 5 to 2 1 0 5 4 3: each row of three is reversed in place and the rows keep
  their order. Applying it twice gives the batch back.
\<close>

theorem back_order_mirror:
  assumes "length batch = 6"
  shows "back_order batch = Inr (map (\<lambda>i. batch ! i) [2, 1, 0, 5, 4, 3])
       \<and> back_order batch = Inr (rev (take 3 batch) @ rev (drop 3 batch))
       \<and> (\<exists>back. back_order batch = Inr back \<and> length back = 6 \<and> back_order back = Inr batch)
       \<and> back_order [0, 1, 2, 3, 4, 5 :: nat] = Inr [2, 1, 0, 5, 4, 3]"
proof -
  from assms obtain b0 b1 b2 b3 b4 b5 where "batch = [b0, b1, b2, b3, b4, b5]"
    by (auto simp: eval_nat_numeral length_Suc_conv)
  then show ?thesis by simp
qed

theorem back_order_mirror_witness:
  "back_order [Some 1, Some 2, Some 3, Some 7, None, None :: int option]
      = Inr [Some 3, Some 2, Some 1, None, None, Some 7]
   \<and> back_order [Some 3, Some 2, Some 1, None, None, Some 7 :: int option]
      = Inr [Some 1, Some 2, Some 3, Some 7, None, None]"
  using back_order_mirror [of "[Some 1, Some 2, Some 3, Some 7, None, None :: int option]"]
  by simp

section \<open>Properties of the rendering\<close>

lemma cells_ok_Cons:
  "cells_ok ex (c # cells) \<Longrightarrow> cells_ok ex cells"
  by (auto simp: cells_ok_def)

lemma cells_ok_head:
  "cells_ok ex ((idx, Some e, Some p) # cells) \<Longrightarrow> \<exists>f fs. map_of ex e = Some (f # fs)"
  by (auto simp: cells_ok_def)

lemma grid_cells_exact:
  "cells_ok ex cells \<Longrightarrow>
   grid_cells E ex cells acc =
     (if \<forall>p\<in>set (cell_pages cells). raster_ok E p \<and> draw_ok E p
      then Inr (fst acc @ cell_ops ex cells, snd acc \<or> cell_pages cells \<noteq> [])
      else Inl RenderError)"
proof (induction E ex cells acc rule: grid_cells.induct)
  case (1 E ex acc)
  show ?case by simp
next
  case (2 E ex idx page_idx cells acc)
  from 2(2) have "cells_ok ex cells" by (rule cells_ok_Cons)
  with 2(1) show ?case by simp
next
  case (3 E ex idx exam_num cells acc)
  from 3(2) have "cells_ok ex cells" by (rule cells_ok_Cons)
  with 3(1) show ?case by simp
next
  case (4 E ex idx exam_num page_idx cells acc)
  from 4(2) have ok: "cells_ok ex cells" by (rule cells_ok_Cons)
  from 4(2) obtain f fs where f: "map_of ex exam_num = Some (f # fs)"
    by (blast dest: cells_ok_head)
  show ?case
  proof (cases "raster_ok E page_idx \<and> draw_ok E page_idx")
    case True
    with 4(1) [OF refl refl f refl True ok] f show ?thesis
      by (simp add: Let_def)
  next
    case False
    with f show ?thesis by (auto simp: Let_def)
  qed
qed

lemma images_cell_ops: "images (Grid (ops @ cell_ops ex cells)) = images (Grid ops) @ cell_pages cells"
  by (induction ex cells rule: cell_ops.induct) (simp_all add: images_def)

lemma cell_pages_set:
  "p \<in> set (cell_pages cells) \<Longrightarrow> \<exists>idx e. (idx, Some e, Some p) \<in> set cells"
  by (induction cells rule: cell_pages.induct) auto

lemma cell_pages_mem:
  "(idx, Some e, Some p) \<in> set cells \<Longrightarrow> p \<in> set (cell_pages cells)"
  by (induction cells rule: cell_pages.induct) auto

lemma cell_fails:
  "(idx, Some e, Some p) \<in> set cells \<Longrightarrow> \<not> (raster_ok E p \<and> draw_ok E p)
     \<Longrightarrow> \<exists>err. grid_cells E ex cells acc = Inl err"
proof (induction E ex cells acc rule: grid_cells.induct)
  case (4 E ex idx' exam_num page_idx cells acc)
  show ?case
  proof (cases "map_of ex exam_num")
    case None
    then show ?thesis by simp
  next
    case (Some ps)
    show ?thesis
    proof (cases ps)
      case Nil
      with Some show ?thesis by simp
    next
      case (Cons f fs)
      show ?thesis
      proof (cases "raster_ok E page_idx \<and> draw_ok E page_idx")
        case True
        with 4(2,3) have "(idx, Some e, Some p) \<in> set cells" by auto
        with 4(1) [OF refl refl Some Cons True] 4(3) True Some Cons show ?thesis
          by (simp add: Let_def)
      next
        case False
        with Some Cons show ?thesis by (auto simp: Let_def)
      qed
    qed
  qed
qed auto

lemma classified_nonempty: "classified pages st \<Longrightarrow> nonempty_groups (fst st)"
  by (auto simp: classified_def nonempty_groups_def group_pages_def Let_def split: if_splits)

lemma classified_owner:
  assumes "classified pages st" "map_of (fst st) e = Some ps" "p \<in> set ps"
  shows "owner pages p = Some e \<and> p < length pages"
proof -
  from assms(1,2) have "group_pages pages e = Some ps" by (simp add: classified_def)
  then have "ps = filter (\<lambda>i. owner pages i = Some e) [0..<length pages]"
    by (auto simp: group_pages_def Let_def split: if_splits)
  with assms(3) show ?thesis by simp
qed

lemma map_err_list_all2:
  "map_err f xs = Inr ys \<Longrightarrow> list_all2 (\<lambda>x y. f x = Inr y) xs ys"
  by (induction xs arbitrary: ys) (auto split: sum.splits)

lemma map_err_total:
  "(\<And>x. x \<in> set xs \<Longrightarrow> \<exists>y. f x = Inr y) \<Longrightarrow> \<exists>ys. map_err f xs = Inr ys"
proof (induction xs)
  case Nil
  show ?case by simp
next
  case (Cons x xs)
  then obtain y ys where "f x = Inr y" "map_err f xs = Inr ys"
    by (metis list.set_intros(1) list.set_intros(2))
  then show ?case by simp
qed

lemma map_of_in_keys: "e \<in> fst ` set ex \<Longrightarrow> \<exists>ps. map_of ex e = Some ps"
  by (metis map_of_eq_None_iff not_Some_eq)

lemma first_page_Some:
  "first_page ex e = Inr (Some p) \<Longrightarrow>
     \<exists>e' ps. e = Some e' \<and> e' \<noteq> 0 \<and> map_of ex e' = Some (p # ps)"
  by (cases e) (auto simp: first_page_def split: if_splits option.splits list.splits)

lemma second_page_Some:
  "second_page ex e = Inr (Some p) \<Longrightarrow>
     \<exists>e' ps. e = Some e' \<and> e' \<noteq> 0 \<and> map_of ex e' = Some ps \<and> 1 < length ps \<and> p = ps ! 1"
  by (cases e) (auto simp: second_page_def split: if_splits option.splits)

lemma third_page_Some:
  "third_page ex e = Inr (Some p) \<Longrightarrow>
     \<exists>e' ps. e = Some e' \<and> e' \<noteq> 0 \<and> map_of ex e' = Some ps \<and> 3 \<le> length ps \<and> p = ps ! 2"
  by (cases e) (auto simp: third_page_def split: if_splits option.splits)

lemma first_page_total: "nonempty_groups ex \<Longrightarrow> \<exists>r. first_page ex e = Inr r"
proof (cases "truthy e \<and> the e \<in> fst ` set ex")
  case True
  then have "\<exists>ps. map_of ex (the e) = Some ps" by (intro map_of_in_keys) simp
  then obtain ps where ps: "map_of ex (the e) = Some ps" by blast
  assume "nonempty_groups ex"
  with ps obtain q qs where "ps = q # qs" by (cases ps) (auto simp: nonempty_groups_def)
  with True ps show ?thesis by (simp add: first_page_def)
next
  case False
  then show ?thesis by (simp only: first_page_def if_not_P) simp
qed

lemma second_page_total: "\<exists>r. second_page ex e = Inr r"
proof (cases "truthy e \<and> the e \<in> fst ` set ex")
  case True
  then have "\<exists>ps. map_of ex (the e) = Some ps" by (intro map_of_in_keys) simp
  then obtain ps where ps: "map_of ex (the e) = Some ps" by blast
  with True show ?thesis by (simp add: second_page_def)
next
  case False
  then show ?thesis by (simp only: second_page_def if_not_P) simp
qed

lemma third_page_total:
  "e \<in> insert None (Some ` fst ` set ex) \<Longrightarrow> \<exists>r. third_page ex e = Inr r"
proof (cases "truthy e")
  case True
  assume "e \<in> insert None (Some ` fst ` set ex)"
  with True have "the e \<in> fst ` set ex" by (cases e) auto
  then have "\<exists>ps. map_of ex (the e) = Some ps" by (intro map_of_in_keys) simp
  then obtain ps where ps: "map_of ex (the e) = Some ps" by blast
  with True show ?thesis by (simp add: third_page_def)
next
  case False
  then show ?thesis by (simp add: third_page_def)
qed

text \<open>What the three lookups have in common.\<close>

lemma resolved_cells:
  assumes r: "\<And>e p. f e = Inr (Some p) \<Longrightarrow>
                \<exists>e' ps. e = Some e' \<and> e' \<noteq> 0 \<and> map_of ex e' = Some ps \<and> p \<in> set (take 3 ps)"
    and m: "map_err f nums = Inr pis"
  shows "cells_ok ex (enumerate 0 (zip nums pis))"
    and "\<forall>p\<in>set (cell_pages (enumerate 0 (zip nums pis))). shown ex p"
    and "length pis = length nums"
proof -
  from m have la: "list_all2 (\<lambda>x y. f x = Inr y) nums pis" by (rule map_err_list_all2)
  then show "length pis = length nums" by (simp add: list_all2_lengthD)
  have cell: "f e = Inr p" if "(idx, e, p) \<in> set (enumerate 0 (zip nums pis))" for idx e p
  proof -
    from that have "(e, p) \<in> set (zip nums pis)"
      by (auto simp: in_set_enumerate_eq in_set_zip)
    with la show ?thesis by (auto simp: list_all2_iff)
  qed
  show "cells_ok ex (enumerate 0 (zip nums pis))"
    unfolding cells_ok_def
  proof (intro ballI, clarify)
    fix idx e' p'
    assume "(idx, Some e', Some p') \<in> set (enumerate 0 (zip nums pis))"
    then have "f (Some e') = Inr (Some p')" by (rule cell)
    from r [OF this] obtain ps where "map_of ex e' = Some ps" "p' \<in> set (take 3 ps)" by auto
    then show "\<exists>f fs. map_of ex e' = Some (f # fs)" by (cases ps) auto
  qed
  show "\<forall>p\<in>set (cell_pages (enumerate 0 (zip nums pis))). shown ex p"
  proof
    fix p assume "p \<in> set (cell_pages (enumerate 0 (zip nums pis)))"
    then obtain idx e where "(idx, Some e, Some p) \<in> set (enumerate 0 (zip nums pis))"
      by (blast dest: cell_pages_set)
    then have "f (Some e) = Inr (Some p)" by (rule cell)
    from r [OF this] show "shown ex p" by (auto simp: shown_def)
  qed
qed

lemma nth_in_take3: "r < 3 \<Longrightarrow> r < length ps \<Longrightarrow> ps ! r \<in> set (take 3 ps)"
  by (metis length_take min_less_iff_conj nth_mem nth_take)

lemma first_page_resolves:
  "first_page ex e = Inr (Some p) \<Longrightarrow>
     \<exists>e' ps. e = Some e' \<and> e' \<noteq> 0 \<and> map_of ex e' = Some ps \<and> p \<in> set (take 3 ps)"
  by (drule first_page_Some) auto

lemma second_page_resolves:
  "second_page ex e = Inr (Some p) \<Longrightarrow>
     \<exists>e' ps. e = Some e' \<and> e' \<noteq> 0 \<and> map_of ex e' = Some ps \<and> p \<in> set (take 3 ps)"
proof -
  assume "second_page ex e = Inr (Some p)"
  from second_page_Some [OF this] obtain e' ps where
    h: "e = Some e'" "e' \<noteq> 0" "map_of ex e' = Some ps" "1 < length ps" "p = ps ! 1" by blast
  have "ps ! 1 \<in> set (take 3 ps)" using h(4) by (intro nth_in_take3) simp_all
  with h show ?thesis by blast
qed

lemma third_page_resolves:
  "third_page ex e = Inr (Some p) \<Longrightarrow>
     \<exists>e' ps. e = Some e' \<and> e' \<noteq> 0 \<and> map_of ex e' = Some ps \<and> p \<in> set (take 3 ps)"
proof -
  assume "third_page ex e = Inr (Some p)"
  from third_page_Some [OF this] obtain e' ps where
    h: "e = Some e'" "e' \<noteq> 0" "map_of ex e' = Some ps" "3 \<le> length ps" "p = ps ! 2" by blast
  have "ps ! 2 \<in> set (take 3 ps)" using h(4) by (intro nth_in_take3) simp_all
  with h show ?thesis by blast
qed

lemma create_grid_page_exact:
  assumes "cells_ok ex (enumerate 0 (zip nums pis))"
  shows "create_grid_page E ex nums pis title =
     (if \<forall>p\<in>set (cell_pages (enumerate 0 (zip nums pis))). raster_ok E p \<and> draw_ok E p
      then Inr (Grid ((if title \<noteq> [] then [Title title] else [])
                       @ cell_ops ex (enumerate 0 (zip nums pis))),
                cell_pages (enumerate 0 (zip nums pis)) \<noteq> [])
      else Inl RenderError)"
  by (simp add: create_grid_page_def grid_cells_exact [OF assms])

lemma images_create_grid_page:
  "images (Grid (cell_ops ex cells)) = cell_pages cells"
  "images (Grid (Title title # cell_ops ex cells)) = cell_pages cells"
  using images_cell_ops [of "[]" ex cells] images_cell_ops [of "[Title title]" ex cells]
  by (simp_all add: images_def)

text \<open>A resolved sheet: it is rendered, or the rendering of one of its pages fails.\<close>

lemma resolved_sheet:
  assumes r: "\<And>e p. f e = Inr (Some p) \<Longrightarrow>
                \<exists>e' ps. e = Some e' \<and> e' \<noteq> 0 \<and> map_of ex e' = Some ps \<and> p \<in> set (take 3 ps)"
    and m: "map_err f nums = Inr pis"
  shows "(\<exists>s. create_grid_page E ex nums pis title
                 = Inr (s, cell_pages (enumerate 0 (zip nums pis)) \<noteq> [])
              \<and> images s = cell_pages (enumerate 0 (zip nums pis))
              \<and> (\<forall>p\<in>set (images s). shown ex p)
              \<and> (\<forall>p\<in>set (cell_pages (enumerate 0 (zip nums pis))). raster_ok E p \<and> draw_ok E p))
         \<or> (create_grid_page E ex nums pis title = Inl RenderError
              \<and> \<not> (\<forall>p\<in>set (cell_pages (enumerate 0 (zip nums pis))). raster_ok E p \<and> draw_ok E p))"
proof -
  note rc = resolved_cells [of f ex nums pis, OF r m]
  show ?thesis
  proof (cases "\<forall>p\<in>set (cell_pages (enumerate 0 (zip nums pis))). raster_ok E p \<and> draw_ok E p")
    case True
    then have "create_grid_page E ex nums pis title =
        Inr (Grid ((if title \<noteq> [] then [Title title] else [])
                       @ cell_ops ex (enumerate 0 (zip nums pis))),
             cell_pages (enumerate 0 (zip nums pis)) \<noteq> [])"
      by (simp add: create_grid_page_exact [OF rc(1)])
    moreover have "images (Grid ((if title \<noteq> [] then [Title title] else [])
                       @ cell_ops ex (enumerate 0 (zip nums pis))))
                   = cell_pages (enumerate 0 (zip nums pis))"
      by (simp add: images_create_grid_page)
    ultimately show ?thesis using rc(2) True by auto
  next
    case False
    then have "create_grid_page E ex nums pis title = Inl RenderError"
      by (simp add: create_grid_page_exact [OF rc(1)])
    with False show ?thesis by blast
  qed
qed

section \<open>Properties of the loops over the batches\<close>

lemma set_batch_at: "set (batch_at ids i) \<subseteq> insert None (Some ` set ids)"
proof -
  have "set (take 6 (drop i ids)) \<subseteq> set ids"
    by (meson set_take_subset set_drop_subset subset_trans)
  then show ?thesis by (auto simp: batch_at_window)
qed

lemma back_order_six:
  assumes "length batch = 6"
  shows "\<exists>bo. back_order batch = Inr bo \<and> set bo = set batch \<and> length bo = 6"
proof -
  from assms obtain b0 b1 b2 b3 b4 b5 where "batch = [b0, b1, b2, b3, b4, b5]"
    by (auto simp: eval_nat_numeral length_Suc_conv)
  then show ?thesis by auto
qed

lemma set_add_pair: "set (add_pair E w s1 s2) \<subseteq> set w \<union> {s1, s2}"
  by (auto simp: add_pair_def add_page_def split: option.splits if_splits)

lemma all_shown_add_pair:
  assumes "all_shown ex w" "\<forall>p\<in>set (images s1). shown ex p" "\<forall>p\<in>set (images s2). shown ex p"
  shows "all_shown ex (add_pair E w s1 s2)"
  using assms set_add_pair [of E w s1 s2] unfolding all_shown_def by blast

lemma images_Blank: "images Blank = []"
  by (simp add: images_def)

lemma primary_batch_unfold:
  assumes "map_err (first_page ex) (batch_at nums i) = Inr pis"
    and "back_order (batch_at nums i) = Inr bo"
    and "map_err (second_page ex) bo = Inr pis2"
  shows "primary_batch E ex nums st i =
     (case create_grid_page E ex (batch_at nums i) pis (first_title (snd st + 1)) of
        Inl e \<Rightarrow> Inl e
      | Inr (front, _) \<Rightarrow>
          (case create_grid_page E ex bo pis2 (second_title (snd st + 1)) of
             Inl e \<Rightarrow> Inl e
           | Inr (back_sheet, has_second_pages) \<Rightarrow>
               Inr (add_pair E (fst st) front (if has_second_pages then back_sheet else Blank),
                    snd st + 1)))"
  using assms by (simp add: primary_batch_def Let_def split: sum.splits prod.splits)

lemma primary_batch_lookups:
  assumes "nonempty_groups ex"
  shows "\<exists>pis bo pis2. map_err (first_page ex) (batch_at nums i) = Inr pis
            \<and> back_order (batch_at nums i) = Inr bo
            \<and> map_err (second_page ex) bo = Inr pis2"
proof -
  have "\<exists>pis. map_err (first_page ex) (batch_at nums i) = Inr pis"
    using assms by (intro map_err_total first_page_total)
  moreover have "\<exists>bo. back_order (batch_at nums i) = Inr bo"
    using back_order_six [OF length_batch_at] by blast
  moreover have "\<exists>pis2. map_err (second_page ex) bo = Inr pis2" for bo
    by (intro map_err_total second_page_total)
  ultimately show ?thesis by blast
qed

lemma primary_batch_cases:
  assumes "nonempty_groups ex"
  shows "(\<exists>w'. primary_batch E ex nums st i = Inr (w', snd st + 1)
               \<and> (all_shown ex (fst st) \<longrightarrow> all_shown ex w'))
         \<or> primary_batch E ex nums st i = Inl RenderError"
proof -
  from primary_batch_lookups [OF assms] obtain pis bo pis2 where
    l: "map_err (first_page ex) (batch_at nums i) = Inr pis"
       "back_order (batch_at nums i) = Inr bo"
       "map_err (second_page ex) bo = Inr pis2" by blast
  note u = primary_batch_unfold [OF l]
  note f = resolved_sheet [of "first_page ex" ex "batch_at nums i" pis E "first_title (snd st + 1)",
                            OF first_page_resolves l(1)]
  note b = resolved_sheet [of "second_page ex" ex bo pis2 E "second_title (snd st + 1)",
                            OF second_page_resolves l(3)]
  show ?thesis
  proof (cases "create_grid_page E ex (batch_at nums i) pis (first_title (snd st + 1))")
    case (Inl e)
    with f have "e = RenderError" by auto
    with Inl u show ?thesis by simp
  next
    case (Inr fr)
    obtain front h1 where fr: "fr = (front, h1)" by (cases fr)
    with Inr f have sf: "\<forall>p\<in>set (images front). shown ex p" by auto
    show ?thesis
    proof (cases "create_grid_page E ex bo pis2 (second_title (snd st + 1))")
      case (Inl e)
      with b have "e = RenderError" by auto
      with Inl Inr fr u show ?thesis by simp
    next
      case br: (Inr bk)
      obtain back_sheet h2 where bk: "bk = (back_sheet, h2)" by (cases bk)
      with br b have "\<forall>p\<in>set (images back_sheet). shown ex p" by auto
      then have "\<forall>p\<in>set (images (if h2 then back_sheet else Blank)). shown ex p"
        by (simp add: images_Blank)
      with sf have "all_shown ex (fst st) \<longrightarrow>
          all_shown ex (add_pair E (fst st) front (if h2 then back_sheet else Blank))"
        by (blast intro: all_shown_add_pair)
      moreover have "primary_batch E ex nums st i =
          Inr (add_pair E (fst st) front (if h2 then back_sheet else Blank), snd st + 1)"
        using u Inr fr br bk by simp
      ultimately show ?thesis by blast
    qed
  qed
qed


lemma primary_loop_cases:
  assumes "nonempty_groups ex"
  shows "(\<exists>w' n'. primary_loop E ex nums st is = Inr (w', n')
               \<and> (all_shown ex (fst st) \<longrightarrow> all_shown ex w'))
         \<or> primary_loop E ex nums st is = Inl RenderError"
proof (induction "is" arbitrary: st)
  case Nil
  show ?case by (cases st) simp
next
  case (Cons i "is")
  from primary_batch_cases [OF assms, of E nums st i] show ?case
  proof
    assume "\<exists>w'. primary_batch E ex nums st i = Inr (w', snd st + 1)
               \<and> (all_shown ex (fst st) \<longrightarrow> all_shown ex w')"
    then obtain w' where w': "primary_batch E ex nums st i = Inr (w', snd st + 1)"
      "all_shown ex (fst st) \<longrightarrow> all_shown ex w'" by blast
    from Cons [of "(w', snd st + 1)"] w' show ?thesis by auto
  next
    assume "primary_batch E ex nums st i = Inl RenderError"
    then show ?thesis by simp
  qed
qed


lemma primary_loop_fail:
  assumes "nonempty_groups ex" "i \<in> set is"
    and "\<And>st. primary_batch E ex nums st i = Inl RenderError"
  shows "primary_loop E ex nums st is = Inl RenderError"
  using assms(2)
proof (induction "is" arbitrary: st)
  case Nil
  then show ?case by simp
next
  case (Cons j "is")
  show ?case
  proof (cases "j = i")
    case True
    with assms(3) show ?thesis by simp
  next
    case False
    with Cons.prems have "i \<in> set is" by simp
    with Cons.IH have ih: "\<And>st. primary_loop E ex nums st is = Inl RenderError" by blast
    from primary_batch_cases [OF assms(1), of E nums st j] show ?thesis
      using ih by auto
  qed
qed

lemma third_page_exams_filter:
  "set nums \<subseteq> fst ` set ex \<Longrightarrow>
     third_page_exams ex nums = Inr (filter (\<lambda>e. 3 \<le> length (the (map_of ex e))) nums)"
proof (induction nums)
  case Nil
  show ?case by simp
next
  case (Cons e nums)
  then have "e \<in> fst ` set ex" by simp
  then have "\<exists>ps. map_of ex e = Some ps" by (rule map_of_in_keys)
  then obtain ps where "map_of ex e = Some ps" by blast
  with Cons show ?case by simp
qed

lemma third_batch_lookups:
  assumes "set tex \<subseteq> fst ` set ex"
  shows "\<exists>pis. map_err (third_page ex) (batch_at tex i) = Inr pis"
proof (rule map_err_total)
  fix x assume "x \<in> set (batch_at tex i)"
  with set_batch_at [of tex i] have "x \<in> insert None (Some ` set tex)" by blast
  with assms have "x \<in> insert None (Some ` fst ` set ex)" by blast
  then show "\<exists>y. third_page ex x = Inr y" by (rule third_page_total)
qed

lemma third_batch_unfold:
  assumes "map_err (third_page ex) (batch_at tex i) = Inr pis"
  shows "third_batch E ex tex w i =
     (case create_grid_page E ex (batch_at tex i) pis (third_title (batch_at tex i)) of
        Inl e \<Rightarrow> Inl e
      | Inr (third, _) \<Rightarrow> Inr (add_pair E w third Blank))"
  using assms by (simp add: third_batch_def Let_def split: sum.splits prod.splits)

lemma third_batch_cases:
  assumes "set tex \<subseteq> fst ` set ex"
  shows "(\<exists>w'. third_batch E ex tex w i = Inr w' \<and> (all_shown ex w \<longrightarrow> all_shown ex w'))
         \<or> third_batch E ex tex w i = Inl RenderError"
proof -
  from third_batch_lookups [OF assms] obtain pis where
    l: "map_err (third_page ex) (batch_at tex i) = Inr pis" by blast
  note u = third_batch_unfold [OF l]
  note f = resolved_sheet [of "third_page ex" ex "batch_at tex i" pis E "third_title (batch_at tex i)",
                            OF third_page_resolves l]
  show ?thesis
  proof (cases "create_grid_page E ex (batch_at tex i) pis (third_title (batch_at tex i))")
    case (Inl e)
    with f have "e = RenderError" by auto
    with Inl u show ?thesis by simp
  next
    case (Inr tr)
    obtain third h where tr: "tr = (third, h)" by (cases tr)
    with Inr f have "\<forall>p\<in>set (images third). shown ex p" by auto
    then have "all_shown ex w \<longrightarrow> all_shown ex (add_pair E w third Blank)"
      by (auto intro: all_shown_add_pair simp: images_Blank)
    moreover have "third_batch E ex tex w i = Inr (add_pair E w third Blank)"
      using u Inr tr by simp
    ultimately show ?thesis by blast
  qed
qed


lemma third_loop_cases:
  assumes "set tex \<subseteq> fst ` set ex"
  shows "(\<exists>w'. third_loop E ex tex w is = Inr w' \<and> (all_shown ex w \<longrightarrow> all_shown ex w'))
         \<or> third_loop E ex tex w is = Inl RenderError"
proof (induction "is" arbitrary: w)
  case Nil
  show ?case by simp
next
  case (Cons i "is")
  from third_batch_cases [OF assms, of E w i] show ?case
  proof
    assume "\<exists>w'. third_batch E ex tex w i = Inr w' \<and> (all_shown ex w \<longrightarrow> all_shown ex w')"
    then obtain w' where w': "third_batch E ex tex w i = Inr w'"
      "all_shown ex w \<longrightarrow> all_shown ex w'" by blast
    from Cons [of w'] w' show ?thesis by auto
  next
    assume "third_batch E ex tex w i = Inl RenderError"
    then show ?thesis by simp
  qed
qed


text \<open>The run, once the pages are classified.\<close>

lemma reformat_pdf_unfold:
  assumes "parse_pdf pages = Inr (ex, cur)"
  shows "reformat_pdf E pages =
     (case primary_loop E ex (sort (map fst ex)) ([], 0) (range_step 0 (length ex)) of
        Inl e \<Rightarrow> Inl e
      | Inr (writer, _) \<Rightarrow>
          (let third_exams = filter (\<lambda>e. 3 \<le> length (the (map_of ex e))) (sort (map fst ex))
           in if third_exams \<noteq> []
              then third_loop E ex third_exams writer (range_step 0 (length third_exams))
              else Inr writer))"
proof -
  have "third_page_exams ex (sort (map fst ex))
          = Inr (filter (\<lambda>e. 3 \<le> length (the (map_of ex e))) (sort (map fst ex)))"
    by (rule third_page_exams_filter) simp
  with assms show ?thesis
    by (simp add: reformat_pdf_def Let_def split: sum.splits prod.splits)
qed

lemma reformat_pdf_cases:
  assumes "parse_pdf pages = Inr (ex, cur)" "nonempty_groups ex"
  shows "(\<exists>out. reformat_pdf E pages = Inr out \<and> all_shown ex out)
         \<or> reformat_pdf E pages = Inl RenderError"
proof -
  define tex where "tex = filter (\<lambda>e. 3 \<le> length (the (map_of ex e))) (sort (map fst ex))"
  have sub: "set tex \<subseteq> fst ` set ex" by (auto simp: tex_def)
  have e: "all_shown ex []" by (simp add: all_shown_def)
  from primary_loop_cases [OF assms(2), of E "sort (map fst ex)" "([], 0)" "range_step 0 (length ex)"]
  show ?thesis
  proof
    assume "primary_loop E ex (sort (map fst ex)) ([], 0) (range_step 0 (length ex)) = Inl RenderError"
    then show ?thesis by (simp add: reformat_pdf_unfold [OF assms(1)])
  next
    assume "\<exists>w' n'. primary_loop E ex (sort (map fst ex)) ([], 0) (range_step 0 (length ex)) = Inr (w', n')
               \<and> (all_shown ex (fst ([], 0)) \<longrightarrow> all_shown ex w')"
    then obtain w' n' where
      w': "primary_loop E ex (sort (map fst ex)) ([], 0) (range_step 0 (length ex)) = Inr (w', n')"
      "all_shown ex w'" using e by auto
    then have u: "reformat_pdf E pages =
        (if tex \<noteq> [] then third_loop E ex tex w' (range_step 0 (length tex)) else Inr w')"
      by (simp add: reformat_pdf_unfold [OF assms(1)] tex_def Let_def)
    show ?thesis
    proof (cases "tex = []")
      case True
      with u w' show ?thesis by simp
    next
      case False
      with u third_loop_cases [OF sub, of E w' "range_step 0 (length tex)"] w'(2)
      show ?thesis by auto
    qed
  qed
qed


lemma parse_pdf_wf:
  "\<exists>ex cur. parse_pdf pages = Inr (ex, cur) \<and> classified pages (ex, cur) \<and> nonempty_groups ex"
proof -
  from parse_pdf_classified [of pages] obtain st where
    "parse_pdf pages = Inr st" "classified pages st" by blast
  moreover from this have "nonempty_groups (fst st)" by (simp add: classified_nonempty)
  ultimately show ?thesis by (cases st) auto
qed

section \<open>The run as a whole\<close>

lemma add_pair_cases:
  "add_pair E w s1 s2 =
     (if \<not> add_ok E w s1 then w
      else if \<not> add_ok E (w @ [s1]) s2 then w @ [s1]
      else w @ [s1, s2])"
  by (simp add: add_pair_def add_page_def)




text \<open>
  Claim C4 at a document whose only exam has number 0 and two pages. The exam has a second
  page, yet its slot on the back side resolves to no page, the back side is rendered with no
  content, and a blank sheet is written in its place.
\<close>

theorem back_sheet_group_zero:
  "parse_pdf [''TEZA 0'', ''second page''] = Inr ([(0, [0, 1])], Some 0)
   \<and> batches [0] = [[Some 0, None, None, None, None, None]]
   \<and> back_order [Some 0, None, None, None, None, None :: int option]
        = Inr [None, None, Some 0, None, None, None]
   \<and> map_err (second_page [(0, [0, 1])]) [None, None, Some 0, None, None, None]
        = Inr [None, None, None, None, None, None]
   \<and> create_grid_page no_failure [(0, [0, 1])] [None, None, Some 0, None, None, None]
        [None, None, None, None, None, None] ''Batch 1 - Second Pages''
        = Inr (Grid [Title ''Batch 1 - Second Pages''], False)
   \<and> reformat_pdf no_failure [''TEZA 0'', ''second page'']
        = Inr [Grid [Title ''Batch 1 - First Pages''], Blank]"
  by code_simp

text \<open>
  Claim C5 at a document in which exam 5 is resumed after exam 6, so that its pages are 0
  and 3. On the back side the cell of exam 5 shows its second page, page 3, and the label
  reads P4.
\<close>

theorem label_of_resumed_group:
  "parse_pdf [''TEZA 5'', ''TEZA 6'', ''more'', ''TEZA 5''] = Inr ([(5, [0, 3]), (6, [1, 2])], Some 5)
   \<and> label_text 5 3 0 = ''E5-P4''
   \<and> reformat_pdf no_failure [''TEZA 5'', ''TEZA 6'', ''more'', ''TEZA 5''] =
      Inr [Grid [Title ''Batch 1 - First Pages'',
                 Rect 0 0, Label 0 0 ''E5-P1'', Picture 0 0 0,
                 Rect 0 1, Label 0 1 ''E6-P1'', Picture 0 1 1],
           Grid [Title ''Batch 1 - Second Pages'',
                 Rect 0 1, Label 0 1 ''E6-P2'', Picture 0 1 2,
                 Rect 0 2, Label 0 2 ''E5-P4'', Picture 0 2 3]]"
  by code_simp

text \<open>
  Claim C6 at a document with two exams of three pages each, numbered 0 and 1. Both are in the
  batch of third pages, the title names both, and only the third page of exam 1 is shown: the
  slot of exam 0 resolves to no page.
\<close>

theorem third_sheet_group_zero:
  "parse_pdf [''TEZA 0'', ''a'', ''b'', ''TEZA 1'', ''c'', ''d'']
      = Inr ([(0, [0, 1, 2]), (1, [3, 4, 5])], Some 1)
   \<and> third_page_exams [(0, [0, 1, 2]), (1, [3, 4, 5])] [0, 1] = Inr [0, 1]
   \<and> map_err (third_page [(0, [0, 1, 2]), (1, [3, 4, 5])]) (batch_at [0, 1] 0)
      = Inr [None, Some 5, None, None, None, None]
   \<and> reformat_pdf no_failure [''TEZA 0'', ''a'', ''b'', ''TEZA 1'', ''c'', ''d''] =
      Inr [Grid [Title ''Batch 1 - First Pages'',
                 Rect 0 1, Label 0 1 ''E1-P1'', Picture 0 1 3],
           Grid [Title ''Batch 1 - Second Pages'',
                 Rect 0 1, Label 0 1 ''E1-P2'', Picture 0 1 4],
           Grid [Title ''Third Pages - Exams [0, 1]'',
                 Rect 0 1, Label 0 1 ''E1-P3'', Picture 0 1 5],
           Blank]"
  by code_simp

section \<open>Failures of the rendering\<close>

lemma range_step_cover:
  "k \<le> j \<Longrightarrow> j < n \<Longrightarrow> \<exists>i\<in>set (range_step k n). i \<le> j \<and> j < i + 6"
proof (induction k n rule: range_step.induct)
  case (1 k n)
  then have kn: "k < n" by simp
  show ?case
  proof (cases "j < k + 6")
    case True
    with 1(2) kn show ?thesis by (subst range_step.simps) auto
  next
    case False
    then have "k + 6 \<le> j" by simp
    from 1(1) [OF kn this 1(3)] kn show ?thesis by (subst range_step.simps) auto
  qed
qed

lemma batch_contains:
  assumes "e \<in> set nums"
  shows "\<exists>i\<in>set (range_step 0 (length nums)). Some e \<in> set (batch_at nums i)"
proof -
  from assms obtain j where j: "j < length nums" "nums ! j = e"
    by (auto simp: in_set_conv_nth)
  from range_step_cover [of 0 j "length nums"] j(1) obtain i where
    i: "i \<in> set (range_step 0 (length nums))" "i \<le> j" "j < i + 6" by auto
  have "j - i < length nums - i \<and> j - i < 6" using i(2,3) j(1) by arith
  then have "j - i < length (take 6 (drop i nums))" by simp
  moreover have "take 6 (drop i nums) ! (j - i) = e" using i(2,3) j by simp
  ultimately have "e \<in> set (take 6 (drop i nums))" by (metis nth_mem)
  then have "Some e \<in> set (batch_at nums i)" by (simp add: batch_at_window)
  with i(1) show ?thesis by blast
qed

lemma resolved_cell_page:
  assumes m: "map_err f nums = Inr pis" and e: "x \<in> set nums" and fx: "f x = Inr (Some p)"
    and x: "x = Some e"
  shows "p \<in> set (cell_pages (enumerate 0 (zip nums pis)))"
proof -
  from m have la: "list_all2 (\<lambda>x y. f x = Inr y) nums pis" by (rule map_err_list_all2)
  from e obtain k where k: "k < length nums" "nums ! k = x" by (auto simp: in_set_conv_nth)
  from la k have "f x = Inr (pis ! k)" and kl: "k < length pis"
    by (auto simp: list_all2_conv_all_nth)
  with fx have "pis ! k = Some p" by simp
  with k kl x have "(k, Some e, Some p) \<in> set (enumerate 0 (zip nums pis))"
    by (simp add: in_set_enumerate_eq)
  then show ?thesis by (rule cell_pages_mem)
qed

lemma first_page_of:
  "e \<noteq> 0 \<Longrightarrow> map_of ex e = Some (p # ps) \<Longrightarrow> first_page ex (Some e) = Inr (Some p)"
  by (auto simp: first_page_def dest: map_of_SomeD intro: rev_image_eqI)

lemma primary_batch_render_fail:
  assumes ne: "nonempty_groups ex" and b: "Some e \<in> set (batch_at nums i)" and e: "e \<noteq> 0"
    and m: "map_of ex e = Some (p # ps)" and f: "\<not> (raster_ok E p \<and> draw_ok E p)"
  shows "primary_batch E ex nums st i = Inl RenderError"
proof -
  from primary_batch_lookups [OF ne] obtain pis bo pis2 where
    l: "map_err (first_page ex) (batch_at nums i) = Inr pis"
       "back_order (batch_at nums i) = Inr bo"
       "map_err (second_page ex) bo = Inr pis2" by blast
  have "p \<in> set (cell_pages (enumerate 0 (zip (batch_at nums i) pis)))"
    using l(1) b first_page_of [OF e m] by (rule resolved_cell_page) simp
  with f have "\<not> (\<forall>q\<in>set (cell_pages (enumerate 0 (zip (batch_at nums i) pis))).
                    raster_ok E q \<and> draw_ok E q)" by blast
  with resolved_sheet [of "first_page ex" ex "batch_at nums i" pis E "first_title (snd st + 1)",
                        OF first_page_resolves l(1)]
  have "create_grid_page E ex (batch_at nums i) pis (first_title (snd st + 1)) = Inl RenderError"
    by blast
  then show ?thesis by (simp add: primary_batch_unfold [OF l])
qed


lemma second_page_of:
  "e \<noteq> 0 \<Longrightarrow> map_of ex e = Some ps \<Longrightarrow> 1 < length ps
     \<Longrightarrow> second_page ex (Some e) = Inr (Some (ps ! 1))"
  by (auto simp: second_page_def dest: map_of_SomeD intro: rev_image_eqI)

lemma third_page_of:
  "e \<noteq> 0 \<Longrightarrow> map_of ex e = Some ps \<Longrightarrow> 3 \<le> length ps
     \<Longrightarrow> third_page ex (Some e) = Inr (Some (ps ! 2))"
  by (auto simp: third_page_def)

lemma primary_batch_render_fail2:
  assumes ne: "nonempty_groups ex" and b: "Some e \<in> set (batch_at nums i)" and e: "e \<noteq> 0"
    and m: "map_of ex e = Some ps" and len: "1 < length ps"
    and f: "\<not> (raster_ok E (ps ! 1) \<and> draw_ok E (ps ! 1))"
  shows "primary_batch E ex nums st i = Inl RenderError"
proof -
  from primary_batch_lookups [OF ne] obtain pis bo pis2 where
    l: "map_err (first_page ex) (batch_at nums i) = Inr pis"
       "back_order (batch_at nums i) = Inr bo"
       "map_err (second_page ex) bo = Inr pis2" by blast
  from back_order_six [OF length_batch_at, of nums i] l(2) have "set bo = set (batch_at nums i)"
    by auto
  with b have b': "Some e \<in> set bo" by simp
  have "ps ! 1 \<in> set (cell_pages (enumerate 0 (zip bo pis2)))"
    using l(3) b' second_page_of [OF e m len] by (rule resolved_cell_page) simp
  with f have "\<not> (\<forall>q\<in>set (cell_pages (enumerate 0 (zip bo pis2))).
                    raster_ok E q \<and> draw_ok E q)" by blast
  with resolved_sheet [of "second_page ex" ex bo pis2 E "second_title (snd st + 1)",
                        OF second_page_resolves l(3)]
  have bk: "create_grid_page E ex bo pis2 (second_title (snd st + 1)) = Inl RenderError"
    by blast
  from resolved_sheet [of "first_page ex" ex "batch_at nums i" pis E "first_title (snd st + 1)",
                        OF first_page_resolves l(1)]
  show ?thesis
  proof
    assume "create_grid_page E ex (batch_at nums i) pis (first_title (snd st + 1)) = Inl RenderError
        \<and> \<not> (\<forall>p\<in>set (cell_pages (enumerate 0 (zip (batch_at nums i) pis))).
               raster_ok E p \<and> draw_ok E p)"
    then show ?thesis by (simp add: primary_batch_unfold [OF l])
  next
    assume "\<exists>s. create_grid_page E ex (batch_at nums i) pis (first_title (snd st + 1))
                 = Inr (s, cell_pages (enumerate 0 (zip (batch_at nums i) pis)) \<noteq> [])
              \<and> images s = cell_pages (enumerate 0 (zip (batch_at nums i) pis))
              \<and> (\<forall>p\<in>set (images s). shown ex p)
              \<and> (\<forall>p\<in>set (cell_pages (enumerate 0 (zip (batch_at nums i) pis))).
                    raster_ok E p \<and> draw_ok E p)"
    then obtain s h where
      "create_grid_page E ex (batch_at nums i) pis (first_title (snd st + 1)) = Inr (s, h)"
      by blast
    with bk show ?thesis by (simp add: primary_batch_unfold [OF l])
  qed
qed

lemma third_batch_render_fail:
  assumes sub: "set tex \<subseteq> fst ` set ex" and b: "Some e \<in> set (batch_at tex i)" and e: "e \<noteq> 0"
    and m: "map_of ex e = Some ps" and len: "3 \<le> length ps"
    and f: "\<not> (raster_ok E (ps ! 2) \<and> draw_ok E (ps ! 2))"
  shows "third_batch E ex tex w i = Inl RenderError"
proof -
  from third_batch_lookups [OF sub] obtain pis where
    l: "map_err (third_page ex) (batch_at tex i) = Inr pis" by blast
  have "ps ! 2 \<in> set (cell_pages (enumerate 0 (zip (batch_at tex i) pis)))"
    using l b third_page_of [OF e m len] by (rule resolved_cell_page) simp
  with f have "\<not> (\<forall>q\<in>set (cell_pages (enumerate 0 (zip (batch_at tex i) pis))).
                    raster_ok E q \<and> draw_ok E q)" by blast
  with resolved_sheet [of "third_page ex" ex "batch_at tex i" pis E "third_title (batch_at tex i)",
                        OF third_page_resolves l]
  have "create_grid_page E ex (batch_at tex i) pis (third_title (batch_at tex i)) = Inl RenderError"
    by blast
  then show ?thesis by (simp add: third_batch_unfold [OF l])
qed

lemma third_loop_fail:
  assumes "set tex \<subseteq> fst ` set ex" "i \<in> set is"
    and "\<And>w. third_batch E ex tex w i = Inl RenderError"
  shows "third_loop E ex tex w is = Inl RenderError"
  using assms(2)
proof (induction "is" arbitrary: w)
  case Nil
  then show ?case by simp
next
  case (Cons j "is")
  show ?case
  proof (cases "j = i")
    case True
    with assms(3) show ?thesis by simp
  next
    case False
    with Cons.prems have "i \<in> set is" by simp
    with Cons.IH have ih: "\<And>w. third_loop E ex tex w is = Inl RenderError" by blast
    from third_batch_cases [OF assms(1), of E w j] show ?thesis
      using ih by auto
  qed
qed

lemma reformat_pdf_render_fail:
  assumes p: "parse_pdf pages = Inr (ex, cur)" and e: "e \<noteq> 0"
    and m: "map_of ex e = Some qs" and r: "r < length qs" "r < 3"
    and f: "\<not> (raster_ok E (qs ! r) \<and> draw_ok E (qs ! r))"
  shows "reformat_pdf E pages = Inl RenderError"
proof -
  from parse_pdf_wf [of pages] p have ne: "nonempty_groups ex" by auto
  define nums where "nums = sort (map fst ex)"
  define tex where "tex = filter (\<lambda>e. 3 \<le> length (the (map_of ex e))) nums"
  have sub: "set tex \<subseteq> fst ` set ex" by (auto simp: tex_def nums_def)
  from m have en: "e \<in> set nums"
    by (auto simp: nums_def dest: map_of_SomeD intro: rev_image_eqI)
  from batch_contains [OF en] obtain i where
    i: "i \<in> set (range_step 0 (length ex))" "Some e \<in> set (batch_at nums i)"
    by (auto simp: nums_def)
  note u = reformat_pdf_unfold [OF p, of E, folded nums_def, folded tex_def]
  from r(2) have "r = 0 \<or> r = 1 \<or> r = 2" by auto
  then show ?thesis
  proof (elim disjE)
    assume r0: "r = 0"
    with r(1) obtain q qs' where qs: "qs = q # qs'" by (cases qs) auto
    with m f r0 have m': "map_of ex e = Some (q # qs')" and f': "\<not> (raster_ok E q \<and> draw_ok E q)"
      by simp_all
    have "primary_loop E ex nums ([], 0) (range_step 0 (length ex)) = Inl RenderError"
      using ne i(1) by (rule primary_loop_fail) (rule primary_batch_render_fail [OF ne i(2) e m' f'])
    then show ?thesis by (simp add: u)
  next
    assume r1: "r = 1"
    with r(1) f have len: "1 < length qs" and f': "\<not> (raster_ok E (qs ! 1) \<and> draw_ok E (qs ! 1))"
      by simp_all
    have "primary_loop E ex nums ([], 0) (range_step 0 (length ex)) = Inl RenderError"
      using ne i(1)
      by (rule primary_loop_fail) (rule primary_batch_render_fail2 [OF ne i(2) e m len f'])
    then show ?thesis by (simp add: u)
  next
    assume r2: "r = 2"
    with r(1) f have len: "3 \<le> length qs" and f': "\<not> (raster_ok E (qs ! 2) \<and> draw_ok E (qs ! 2))"
      by simp_all
    from en m len have et: "e \<in> set tex" by (simp add: tex_def)
    from batch_contains [OF et] obtain k where
      k: "k \<in> set (range_step 0 (length tex))" "Some e \<in> set (batch_at tex k)" by auto
    have tl: "third_loop E ex tex w (range_step 0 (length tex)) = Inl RenderError" for w
      using sub k(1)
      by (rule third_loop_fail) (rule third_batch_render_fail [OF sub k(2) e m len f'])
    from et have "tex \<noteq> []" by auto
    with tl primary_loop_cases [OF ne, of E nums "([], 0)" "range_step 0 (length ex)"]
    show ?thesis by (auto simp: u Let_def)
  qed
qed

text \<open>
  Claim C7, as the code has it. A failure to rasterize or to draw the page of a cell is not
  recovered: \<^verbatim>\<open>create_grid_page\<close> ends with the exception, so that no sheet is returned,
  neither the border and label of that cell nor any other cell; and the run ends with the
  exception, writing no output, whenever this happens to the first, second or third page of an
  exam whose number is not zero.
\<close>

theorem render_failure_aborts:
  "(i < length nums \<and> i < length pis \<and> nums ! i = Some e \<and> pis ! i = Some p
      \<and> \<not> (raster_ok E p \<and> draw_ok E p)
      \<longrightarrow> (\<exists>err. create_grid_page E ex nums pis title = Inl err))
   \<and> (parse_pdf pages = Inr (exams, cur) \<and> g \<noteq> 0 \<and> map_of exams g = Some qs
      \<and> r < length qs \<and> r < 3 \<and> \<not> (raster_ok E (qs ! r) \<and> draw_ok E (qs ! r))
      \<longrightarrow> reformat_pdf E pages = Inl RenderError)"
proof (intro conjI impI)
  assume a: "i < length nums \<and> i < length pis \<and> nums ! i = Some e \<and> pis ! i = Some p
      \<and> \<not> (raster_ok E p \<and> draw_ok E p)"
  then have "(i, Some e, Some p) \<in> set (enumerate 0 (zip nums pis))"
    by (simp add: in_set_enumerate_eq)
  from cell_fails [OF this, of E ex "(if title \<noteq> [] then [Title title] else [], False)"] a
  obtain err where "grid_cells E ex (enumerate 0 (zip nums pis))
      (if title \<noteq> [] then [Title title] else [], False) = Inl err" by blast
  then show "\<exists>err. create_grid_page E ex nums pis title = Inl err"
    by (simp add: create_grid_page_def)
next
  assume "parse_pdf pages = Inr (exams, cur) \<and> g \<noteq> 0 \<and> map_of exams g = Some qs
      \<and> r < length qs \<and> r < 3 \<and> \<not> (raster_ok E (qs ! r) \<and> draw_ok E (qs ! r))"
  then show "reformat_pdf E pages = Inl RenderError"
    by (blast intro: reformat_pdf_render_fail)
qed

theorem render_failure_aborts_witness:
  "create_grid_page (raster_fails_on 1) [(7, [0, 1])] [Some 7] [Some 1] ''t'' = Inl RenderError
   \<and> reformat_pdf (raster_fails_on 1) [''TEZA 7'', ''next''] = Inl RenderError"
proof -
  have p: "parse_pdf [''TEZA 7'', ''next''] = Inr ([(7, [0, 1])], Some 7)" by code_simp
  have f: "\<not> (raster_ok (raster_fails_on 1) 1 \<and> draw_ok (raster_fails_on 1) 1)"
    by (simp add: raster_fails_on_def)
  have c: "create_grid_page (raster_fails_on 1) [(7, [0, 1])] [Some 7] [Some 1] ''t'' = Inl RenderError"
    by code_simp
  from render_failure_aborts [of 0 "[Some 7]" "[Some 1]" 7 1 "raster_fails_on 1" "[(7, [0, 1])]" "''t''"
        "[''TEZA 7'', ''next'']" "[(7, [0, 1])]" "Some 7" 7 "[0, 1]" 1] p f c
  show ?thesis by simp
qed

text \<open>
  Claim C7 as stated fails: with two exams of one page each and a second page that cannot be
  rasterized, the front side of the batch is not returned with the cell of exam 1 rendered and
  that of exam 2 without its picture; the call raises, and so does the run.
\<close>

theorem render_failure_counterexample:
  "\<not> raster_ok (raster_fails_on 1) 1
   \<and> create_grid_page (raster_fails_on 1) [(1, [0]), (2, [1])]
        [Some 1, Some 2, None, None, None, None] [Some 0, Some 1, None, None, None, None]
        ''Batch 1 - First Pages'' = Inl RenderError
   \<and> reformat_pdf (raster_fails_on 1) [''TEZA 1'', ''TEZA 2''] = Inl RenderError"
  by code_simp

section \<open>The exam with number zero\<close>

lemma owner_marker:
  "marker_id (pages ! i) = Some g \<Longrightarrow> owner pages i = Some g"
  by (cases i) (simp_all add: owner_0 owner_Suc)

lemma marker_page_in_group:
  assumes "i < length pages" "marker_id (pages ! i) = Some g"
  shows "\<exists>ex cur ps. parse_pdf pages = Inr (ex, cur) \<and> map_of ex g = Some ps \<and> i \<in> set ps"
proof -
  from parse_pdf_wf [of pages] obtain ex cur where
    p: "parse_pdf pages = Inr (ex, cur)" "classified pages (ex, cur)" by blast
  from assms have "i \<in> set (filter (\<lambda>i. owner pages i = Some g) [0..<length pages])"
    by (simp add: owner_marker)
  moreover from this have "filter (\<lambda>i. owner pages i = Some g) [0..<length pages] \<noteq> []"
    by (metis empty_iff empty_set)
  ultimately have "\<exists>ps. group_pages pages g = Some ps \<and> i \<in> set ps"
    by (simp add: group_pages_def Let_def)
  with p show ?thesis by (auto simp: classified_def)
qed

lemma output_pages_nonzero:
  assumes "reformat_pdf E pages = Inr out" "s \<in> set out" "p \<in> set (images s)"
  shows "\<exists>e. e \<noteq> 0 \<and> owner pages p = Some e"
proof -
  from parse_pdf_wf [of pages] obtain ex cur where
    p: "parse_pdf pages = Inr (ex, cur)" "classified pages (ex, cur)" "nonempty_groups ex"
    by blast
  from reformat_pdf_cases [OF p(1,3), of E] assms(1) have "all_shown ex out" by auto
  with assms(2,3) have "shown ex p" by (auto simp: all_shown_def)
  then obtain e ps where e: "e \<noteq> 0" "map_of ex e = Some ps" "p \<in> set ps"
    by (auto simp: shown_def dest: in_set_takeD)
  from classified_owner [OF p(2), of e ps p] e have "owner pages p = Some e" by simp
  with e(1) show ?thesis by blast
qed

lemma slot_zero_empty:
  "first_page ex (Some 0) = Inr None" "second_page ex (Some 0) = Inr None"
  "third_page ex (Some 0) = Inr None"
  by (simp_all add: first_page_def second_page_def third_page_def)

lemma batch_at_zero: "batch_at [0] 0 = [Some 0, None, None, None, None, None]"
  by code_simp

lemma second_title_nonempty: "second_title n \<noteq> []"
  by (simp add: second_title_def)

text \<open>
  Claim C10. The text \<^verbatim>\<open>TEZA 0\<close> is a marker with id 0, and a page with such a marker is
  put into the group with id 0 by the classification. The lookups of the first, second and
  third page test the truth value of the slot, so that they give no page for the slot of
  group 0, whatever the dictionary holds. Hence no sheet of the output shows a page of group 0,
  and for the batch that holds group 0 alone the back side resolves to six empty cells and is
  rendered without content.
\<close>

theorem group_zero_never_shown:
  "marker_id ''TEZA 0'' = Some 0
   \<and> (i < length pages \<and> marker_id (pages ! i) = Some 0
        \<longrightarrow> (\<exists>ex cur ps. parse_pdf pages = Inr (ex, cur) \<and> map_of ex 0 = Some ps \<and> i \<in> set ps))
   \<and> first_page exams (Some 0) = Inr None
   \<and> second_page exams (Some 0) = Inr None
   \<and> third_page exams (Some 0) = Inr None
   \<and> (parse_pdf pages = Inr (exams, cur) \<and> map_of exams 0 = Some ps
        \<and> reformat_pdf E pages = Inr out \<and> s \<in> set out
        \<longrightarrow> set (images s) \<inter> set ps = {})
   \<and> batch_at [0] 0 = [Some 0, None, None, None, None, None]
   \<and> back_order (batch_at [0] 0) = Inr [None, None, Some 0, None, None, None]
   \<and> map_err (second_page exams) [None, None, Some 0, None, None, None]
        = Inr [None, None, None, None, None, None]
   \<and> create_grid_page E exams [None, None, Some 0, None, None, None]
        [None, None, None, None, None, None] (second_title n)
        = Inr (Grid [Title (second_title n)], False)"
proof (intro conjI impI)
  show "marker_id ''TEZA 0'' = Some 0" by code_simp
next
  assume "i < length pages \<and> marker_id (pages ! i) = Some 0"
  then show "\<exists>ex cur ps. parse_pdf pages = Inr (ex, cur) \<and> map_of ex 0 = Some ps \<and> i \<in> set ps"
    by (blast intro: marker_page_in_group)
next
  assume a: "parse_pdf pages = Inr (exams, cur) \<and> map_of exams 0 = Some ps
        \<and> reformat_pdf E pages = Inr out \<and> s \<in> set out"
  from parse_pdf_wf [of pages] a have c: "classified pages (exams, cur)" by auto
  show "set (images s) \<inter> set ps = {}"
  proof (rule ccontr)
    assume "set (images s) \<inter> set ps \<noteq> {}"
    then obtain p where p: "p \<in> set (images s)" "p \<in> set ps" by blast
    from output_pages_nonzero [of E pages out s p] a p(1)
    obtain e where e: "e \<noteq> 0" "owner pages p = Some e" by blast
    from classified_owner [OF c, of 0 ps p] a p(2) have "owner pages p = Some 0" by simp
    with e show False by simp
  qed
next
  show "batch_at [0] 0 = [Some 0, None, None, None, None, None]" by (rule batch_at_zero)
next
  show "back_order (batch_at [0] 0) = Inr [None, None, Some 0, None, None, None]"
    by (simp add: batch_at_zero)
next
  show "map_err (second_page exams) [None, None, Some 0, None, None, None]
        = Inr [None, None, None, None, None, None]"
    by (simp add: slot_zero_empty) (simp add: second_page_def)
next
  show "create_grid_page E exams [None, None, Some 0, None, None, None]
        [None, None, None, None, None, None] (second_title n)
        = Inr (Grid [Title (second_title n)], False)"
    by (simp add: create_grid_page_def second_title_nonempty enumerate_simps)
qed (rule slot_zero_empty)+

theorem group_zero_never_shown_witness:
  "(\<exists>ex cur ps. parse_pdf [''TEZA 0'', ''x'', ''TEZA 3'', ''y''] = Inr (ex, cur)
       \<and> map_of ex 0 = Some ps \<and> 0 \<in> set ps)
   \<and> set (images (Grid [Title ''Batch 1 - First Pages'',
                         Rect 0 1, Label 0 1 ''E3-P1'', Picture 0 1 2])) \<inter> set [0, 1] = {}"
proof -
  have m: "marker_id ([''TEZA 0'', ''x'', ''TEZA 3'', ''y''] ! 0) = Some 0" by code_simp
  have p: "parse_pdf [''TEZA 0'', ''x'', ''TEZA 3'', ''y'']
             = Inr ([(0, [0, 1]), (3, [2, 3])], Some 3)" by code_simp
  have r: "reformat_pdf no_failure [''TEZA 0'', ''x'', ''TEZA 3'', ''y''] =
      Inr [Grid [Title ''Batch 1 - First Pages'', Rect 0 1, Label 0 1 ''E3-P1'', Picture 0 1 2],
           Grid [Title ''Batch 1 - Second Pages'', Rect 0 1, Label 0 1 ''E3-P2'', Picture 0 1 3]]"
    by code_simp
  from group_zero_never_shown [of 0 "[''TEZA 0'', ''x'', ''TEZA 3'', ''y'']"
      "[(0, [0, 1]), (3, [2, 3])]" "Some 3" "[0, 1]" no_failure
      "[Grid [Title ''Batch 1 - First Pages'', Rect 0 1, Label 0 1 ''E3-P1'', Picture 0 1 2],
        Grid [Title ''Batch 1 - Second Pages'', Rect 0 1, Label 0 1 ''E3-P2'', Picture 0 1 3]]"
      "Grid [Title ''Batch 1 - First Pages'', Rect 0 1, Label 0 1 ''E3-P1'', Picture 0 1 2]" 1]
    m p r
  show ?thesis by simp
qed

section \<open>Further properties of the sheets\<close>

lemma classified_distinct_pages:
  assumes "classified pages st" "map_of (fst st) e = Some ps"
  shows "distinct ps"
proof -
  from assms have "group_pages pages e = Some ps" by (simp add: classified_def)
  then have "ps = filter (\<lambda>i. owner pages i = Some e) [0..<length pages]"
    by (auto simp: group_pages_def Let_def split: if_splits)
  then show ?thesis by simp
qed

text \<open>Pages of rank three and more are in no sheet of the output.\<close>

lemma later_pages_not_shown:
  assumes p: "parse_pdf pages = Inr (ex, cur)" and m: "map_of ex e = Some ps"
    and k: "3 \<le> k" "k < length ps"
    and r: "reformat_pdf E pages = Inr out" and s: "s \<in> set out"
  shows "ps ! k \<notin> set (images s)"
proof
  assume a: "ps ! k \<in> set (images s)"
  from parse_pdf_wf [of pages] p have c: "classified pages (ex, cur)"
    and ne: "nonempty_groups ex" by auto
  from reformat_pdf_cases [OF p ne, of E] r have "all_shown ex out" by auto
  with s a have "shown ex (ps ! k)" by (auto simp: all_shown_def)
  then obtain e' ps' where e': "map_of ex e' = Some ps'" "ps ! k \<in> set (take 3 ps')"
    by (auto simp: shown_def)
  from e'(2) have "ps ! k \<in> set ps'" by (rule in_set_takeD)
  with classified_owner [OF c, of e' ps' "ps ! k"] e'(1) have "owner pages (ps ! k) = Some e'"
    by simp
  moreover from classified_owner [OF c, of e ps "ps ! k"] m k(2)
  have "owner pages (ps ! k) = Some e" by simp
  ultimately have "ps' = ps" using e'(1) m by simp
  with e'(2) obtain j where j: "j < length (take 3 ps)" "take 3 ps ! j = ps ! k"
    by (auto simp: in_set_conv_nth)
  then have j3: "j < 3" "j < length ps" "ps ! j = ps ! k" by simp_all
  from classified_distinct_pages [OF c, of e ps] m have "distinct ps" by simp
  with j3 k(2) have "j = k" by (simp add: nth_eq_iff_index_eq)
  with j3(1) k(1) show False by simp
qed

text \<open>The back side has content exactly when a group of the batch with a non-zero id has a
  second page.\<close>

lemma has_second_pages_iff:
  assumes m: "map_err (second_page ex) bo = Inr pis2"
  shows "cell_pages (enumerate 0 (zip bo pis2)) \<noteq> [] \<longleftrightarrow>
           (\<exists>e ps. Some e \<in> set bo \<and> e \<noteq> 0 \<and> map_of ex e = Some ps \<and> 1 < length ps)"
proof
  assume "cell_pages (enumerate 0 (zip bo pis2)) \<noteq> []"
  then obtain p where "p \<in> set (cell_pages (enumerate 0 (zip bo pis2)))"
    by (cases "cell_pages (enumerate 0 (zip bo pis2))") auto
  then obtain idx e where c: "(idx, Some e, Some p) \<in> set (enumerate 0 (zip bo pis2))"
    by (blast dest: cell_pages_set)
  then have z: "(Some e, Some p) \<in> set (zip bo pis2)"
    by (auto simp: in_set_enumerate_eq in_set_zip)
  from m have "list_all2 (\<lambda>x y. second_page ex x = Inr y) bo pis2" by (rule map_err_list_all2)
  with z have "second_page ex (Some e) = Inr (Some p)" by (auto simp: list_all2_iff)
  from second_page_Some [OF this] z
  show "\<exists>e ps. Some e \<in> set bo \<and> e \<noteq> 0 \<and> map_of ex e = Some ps \<and> 1 < length ps"
    by (auto dest: set_zip_leftD)
next
  assume "\<exists>e ps. Some e \<in> set bo \<and> e \<noteq> 0 \<and> map_of ex e = Some ps \<and> 1 < length ps"
  then obtain e ps where e: "Some e \<in> set bo" "e \<noteq> 0" "map_of ex e = Some ps" "1 < length ps"
    by blast
  have "ps ! 1 \<in> set (cell_pages (enumerate 0 (zip bo pis2)))"
    using m e(1) second_page_of [OF e(2,3,4)] by (rule resolved_cell_page) simp
  then show "cell_pages (enumerate 0 (zip bo pis2)) \<noteq> []" by auto
qed

text \<open>With no failure a primary batch appends its front sheet and then its back sheet or a
  blank one.\<close>

lemma primary_batch_pair:
  assumes ne: "nonempty_groups ex" and ro: "rendering_ok E" and ao: "\<And>w s. add_ok E w s"
  shows "\<exists>front back_sheet has.
           primary_batch E ex nums st i
             = Inr (fst st @ [front, if has then back_sheet else Blank], snd st + 1)
         \<and> (has \<longleftrightarrow> (\<exists>e ps. Some e \<in> set (batch_at nums i) \<and> e \<noteq> 0
                            \<and> map_of ex e = Some ps \<and> 1 < length ps))"
proof -
  from primary_batch_lookups [OF ne] obtain pis bo pis2 where
    l: "map_err (first_page ex) (batch_at nums i) = Inr pis"
       "back_order (batch_at nums i) = Inr bo"
       "map_err (second_page ex) bo = Inr pis2" by blast
  from back_order_six [OF length_batch_at, of nums i] l(2) have sb: "set bo = set (batch_at nums i)"
    by auto
  from resolved_sheet [of "first_page ex" ex "batch_at nums i" pis E "first_title (snd st + 1)",
                            OF first_page_resolves l(1)] ro
  obtain front h1 where
    f: "create_grid_page E ex (batch_at nums i) pis (first_title (snd st + 1)) = Inr (front, h1)"
    by (auto simp: rendering_ok_def)
  from resolved_sheet [of "second_page ex" ex bo pis2 E "second_title (snd st + 1)",
                            OF second_page_resolves l(3)] ro
  obtain back_sheet where
    b: "create_grid_page E ex bo pis2 (second_title (snd st + 1))
          = Inr (back_sheet, cell_pages (enumerate 0 (zip bo pis2)) \<noteq> [])"
    by (auto simp: rendering_ok_def)
  have "primary_batch E ex nums st i
          = Inr (fst st @ [front, if cell_pages (enumerate 0 (zip bo pis2)) \<noteq> []
                                  then back_sheet else Blank], snd st + 1)"
    using f b ao by (simp add: primary_batch_unfold [OF l] add_pair_cases)
  with has_second_pages_iff [OF l(3)] sb show ?thesis by blast
qed

text \<open>The label counts from the first page of the group: it is the rank of the page when
  the pages of the group are contiguous.\<close>

lemma label_text_offset:
  "label_text e (first + r) first = ''E'' @ str_int e @ ''-P'' @ str_int (int r + 1)"
  by (simp add: label_text_def)

end
